theory Spec2Isabelle
  imports Main "HOL-Library.Multiset" "HOL-Library.Char_ord" "HOL-Library.List_Lexorder"
begin

section \<open>Strings and paths\<close>

text \<open>
  A JavaScript string is modelled as a list of characters (one \<open>char\<close> per code unit), a
  path as a string. \<open>String.prototype.startsWith(search, pos)\<close> compares the code units
  from position \<open>pos\<close> on; a window that runs past the end of the string does not match.
\<close>

type_synonym path = string

definition startsWith :: "string \<Rightarrow> string \<Rightarrow> nat \<Rightarrow> bool" where
  "startsWith str search pos = (take (length search) (drop pos str) = search)"

definition endsWith :: "string \<Rightarrow> string \<Rightarrow> bool" where
  "endsWith str search = (length search \<le> length str \<and> drop (length str - length search) str = search)"

definition newline :: char where
  "newline = CHR 0x0A"

section \<open>Comment scanner: \<open>stripEjsComments\<close> (scripts/compile-ejs.js)\<close>

text \<open>
  The body of the inner \<open>while (i < len && depth > 0)\<close> loop, on the loop variables
  \<open>(i, depth, out)\<close>. The four branches are tried in the order of the source.
\<close>

fun commentStep :: "string \<Rightarrow> nat \<times> nat \<times> string \<Rightarrow> nat \<times> nat \<times> string" where
  "commentStep str (i, depth, out) =
     (if startsWith str ''<%%'' i then (i + 3, depth, out)
      else if startsWith str ''<%'' i then (i + 2, depth + 1, out)
      else if startsWith str ''%>'' i then (i + 2, depth - 1, out)
      else (i + 1, depth, if str ! i = newline then out @ [newline] else out))"

function commentLoop :: "string \<Rightarrow> nat \<times> nat \<times> string \<Rightarrow> nat \<times> nat \<times> string" where
  "commentLoop str (i, depth, out) =
     (if i < length str \<and> depth > 0
      then commentLoop str (commentStep str (i, depth, out))
      else (i, depth, out))"
  by pat_completeness auto
termination
  by (relation "measure (\<lambda>(str, i, depth, out). length str - i)") auto

lemma commentLoop_advances: "i \<le> fst (commentLoop str (i, depth, out))"
proof (induction str "(i, depth, out)" arbitrary: i depth out rule: commentLoop.induct)
  case (1 str i depth out)
  show ?case
  proof (cases "i < length str \<and> depth > 0")
    case True
    obtain i' d' o' where st: "commentStep str (i, depth, out) = (i', d', o')"
      by (cases "commentStep str (i, depth, out)") auto
    from st have "i \<le> i'" by (auto split: if_splits)
    moreover from "1.hyps" [OF True st] have "i' \<le> fst (commentLoop str (i', d', o'))" .
    ultimately show ?thesis using True st by simp
  next
    case False
    then show ?thesis by simp
  qed
qed

text \<open>The outer \<open>while (i < len)\<close> loop on \<open>(i, out)\<close>, and the function itself.\<close>

function stripLoop :: "string \<Rightarrow> nat \<Rightarrow> string \<Rightarrow> string" where
  "stripLoop str i out =
     (if i < length str
      then (if startsWith str ''<%#'' i
            then (case commentLoop str (i + 3, 1, out) of (i', depth', out') \<Rightarrow> stripLoop str i' out')
            else stripLoop str (i + 1) (out @ [str ! i]))
      else out)"
  by pat_completeness auto
termination
proof (relation "measure (\<lambda>(str, i, out). length str - i)", goal_cases)
  case 1
  show ?case by simp
next
  case (2 str i out i' y depth' out')
  have "i + 3 \<le> fst (commentLoop str (i + 3, 1, out))"
    by (rule commentLoop_advances)
  with 2 have "i + 3 \<le> i'"
    by (metis fst_conv)
  with 2 show ?case by simp
next
  case (3 str i out)
  then show ?case by simp
qed

definition stripEjsComments :: "string \<Rightarrow> string" where
  "stripEjsComments str = stripLoop str 0 []"

section \<open>The environment: Node's path and file-system functions\<close>

text \<open>
  The code reads the file system and calls Node's \<open>path\<close> and \<open>fs\<close> modules and the EJS
  library. None of that is code of this repository, so it is a parameter of the model: one
  record holds the answers of these calls. A call that may throw returns a sum, with the
  error on the left. \<open>existsSync\<close> never throws. The regular expression of
  \<open>scanIncludes\<close> is represented by \<open>includeMatches\<close>, which gives the successive
  captured references \<open>m[1]\<close> of a text.

  What \<open>readdirSync\<close> and \<open>statSync\<close> find at a path is a tree: a file, a directory
  with its named entries, a directory whose listing raises, or a name whose \<open>statSync\<close>
  raises (a dangling link, or nothing at all).
\<close>

datatype error = IOError | RenderError

datatype fs_node = File | Dir "(string \<times> fs_node) list" | LockedDir | Dangling

record env =
  CWD :: path
  PAGES_DIR :: path
  PARTIALS_DIR :: path
  OUT_DIR :: path
  pathResolve :: "path \<Rightarrow> string \<Rightarrow> path"
  pathJoin :: "path \<Rightarrow> string \<Rightarrow> path"
  pathRelative :: "path \<Rightarrow> path \<Rightarrow> string"
  pathIsAbsolute :: "string \<Rightarrow> bool"
  dirname :: "path \<Rightarrow> path"
  extname :: "path \<Rightarrow> string"
  existsSync :: "path \<Rightarrow> bool"
  readFileSync :: "path \<Rightarrow> error + string"
  fsTree :: "path \<Rightarrow> fs_node option"
  includeMatches :: "string \<Rightarrow> string list"
  render :: "string \<Rightarrow> (string \<rightharpoonup> string) \<Rightarrow> path \<Rightarrow> error + string"
  mkdirSync :: "path \<Rightarrow> bool"
  writeFileSync :: "path \<Rightarrow> string \<Rightarrow> bool"

text \<open>
  A JavaScript \<open>Set\<close> keeps its elements in insertion order without duplicates: a list,
  with \<open>add\<close> appending an element that is not yet there. A \<open>Map\<close> is a partial function.
\<close>

definition Set_add :: "'a \<Rightarrow> 'a list \<Rightarrow> 'a list" where
  "Set_add x xs = (if x \<in> set xs then xs else xs @ [x])"

definition Set_of :: "'a list \<Rightarrow> 'a list" where
  "Set_of xs = fold Set_add xs []"

section \<open>Include resolver and dependency graph (scripts/compile-ejs.js)\<close>

text \<open>
  \<open>walkDir\<close>. \<open>walkNode\<close> is the call on a directory path, given what the file system
  holds there; \<open>walkEntries\<close> is its \<open>for\<close> loop over the entries. \<open>readdirSync\<close>
  raises on anything but a readable directory. An entry that is a directory is walked before
  the entries after it.
\<close>

fun walkNode :: "env \<Rightarrow> path \<Rightarrow> fs_node \<Rightarrow> error + path list"
  and walkEntries :: "env \<Rightarrow> path \<Rightarrow> (string \<times> fs_node) list \<Rightarrow> error + path list" where
  "walkNode e dir node =
     (if \<not> existsSync e dir then Inr []
      else case node of
             Dir entries \<Rightarrow> walkEntries e dir entries
           | _ \<Rightarrow> Inl IOError)"
| "walkEntries e dir [] = Inr []"
| "walkEntries e dir ((entry, node) # rest) =
     (case node of
        Dangling \<Rightarrow> Inl IOError
      | File \<Rightarrow>
         (case walkEntries e dir rest of
            Inl err \<Rightarrow> Inl err
          | Inr others \<Rightarrow>
              Inr ((if endsWith (pathJoin e dir entry) ''.ejs'' then [pathJoin e dir entry] else []) @ others))
      | _ \<Rightarrow>
         (case walkNode e (pathJoin e dir entry) node of
            Inl err \<Rightarrow> Inl err
          | Inr found \<Rightarrow>
             (case walkEntries e dir rest of
                Inl err \<Rightarrow> Inl err
              | Inr others \<Rightarrow> Inr (found @ others))))"

definition walkDir :: "env \<Rightarrow> path \<Rightarrow> error + path list" where
  "walkDir e dir =
     walkNode e dir (case fsTree e dir of None \<Rightarrow> Dangling | Some node \<Rightarrow> node)"

definition readEjsFile :: "env \<Rightarrow> path \<Rightarrow> error + string" where
  "readEjsFile e filePath =
     (case readFileSync e filePath of
        Inl err \<Rightarrow> Inl err
      | Inr content \<Rightarrow> Inr (stripEjsComments content))"

definition resolveInclude :: "env \<Rightarrow> path \<Rightarrow> string \<Rightarrow> path" where
  "resolveInclude e fromFile includePath =
     (let base = pathResolve e (dirname e fromFile) includePath in
      if extname e base = ''.ejs'' then base
      else let withExt = base @ ''.ejs'' in
        if existsSync e withExt then withExt
        else if existsSync e base then base
        else withExt)"

definition scanIncludes :: "env \<Rightarrow> path \<Rightarrow> error + path list" where
  "scanIncludes e filePath =
     (case readEjsFile e filePath of
        Inl err \<Rightarrow> Inl err
      | Inr src \<Rightarrow>
          Inr (fold (\<lambda>inc targets.
                      let resolved = resolveInclude e filePath inc in
                      if existsSync e resolved then Set_add resolved targets else targets)
                 (includeMatches e src) []))"

record dependency_graph =
  pages :: "path list"
  partials :: "path list"
  includes' :: "path \<rightharpoonup> path list"
  dependents :: "path \<rightharpoonup> path list"

text \<open>
  The body of \<open>for (const t of incs)\<close>: create the dependent set of \<open>t\<close> when it is
  missing, then add the including file to it.
\<close>

definition addDependent :: "path \<Rightarrow> path \<Rightarrow> (path \<rightharpoonup> path list) \<Rightarrow> (path \<rightharpoonup> path list)" where
  "addDependent file t deps =
     (let deps1 = (if deps t = None then deps(t \<mapsto> []) else deps) in
      case deps1 t of
        None \<Rightarrow> deps1
      | Some ds \<Rightarrow> deps1(t \<mapsto> Set_add file ds))"

text \<open>The loop \<open>for (const file of universe)\<close> on the two maps; a failing scan ends it.\<close>

fun graphLoop :: "env \<Rightarrow> path list \<Rightarrow> (path \<rightharpoonup> path list) \<times> (path \<rightharpoonup> path list)
    \<Rightarrow> error + (path \<rightharpoonup> path list) \<times> (path \<rightharpoonup> path list)" where
  "graphLoop e [] (incl, deps) = Inr (incl, deps)"
| "graphLoop e (file # files) (incl, deps) =
     (case scanIncludes e file of
        Inl err \<Rightarrow> Inl err
      | Inr incs \<Rightarrow> graphLoop e files (incl(file \<mapsto> incs), fold (addDependent file) incs deps))"

definition buildDependencyGraph :: "env \<Rightarrow> error + dependency_graph" where
  "buildDependencyGraph e =
     (case walkDir e (PAGES_DIR e) of
        Inl err \<Rightarrow> Inl err
      | Inr pageFiles \<Rightarrow>
         (case walkDir e (PARTIALS_DIR e) of
            Inl err \<Rightarrow> Inl err
          | Inr partialFiles \<Rightarrow>
             (let pgs = Set_of pageFiles;
                  pts = Set_of partialFiles;
                  universe = Set_of (pgs @ pts)
              in case graphLoop e universe (Map.empty, Map.empty) of
                   Inl err \<Rightarrow> Inl err
                 | Inr (incl, deps) \<Rightarrow>
                     Inr \<lparr>pages = pgs, partials = pts, includes' = incl, dependents = deps\<rparr>)))"

section \<open>Impact analysis: \<open>getImpactedPages\<close> (scripts/compile-ejs.js)\<close>

text \<open>
  The body of \<open>for (const u of ups)\<close> on \<open>(result, stack)\<close>; \<open>seen\<close> does not change
  inside that loop.
\<close>

definition visitUp :: "dependency_graph \<Rightarrow> path list \<Rightarrow> path \<Rightarrow> path list \<times> path list \<Rightarrow> path list \<times> path list" where
  "visitUp graph seen u = (\<lambda>(result, stack).
     (if u \<in> set (pages graph) then Set_add u result else result,
      if u \<notin> set seen then stack @ [u] else stack))"

fun impactStep :: "dependency_graph \<Rightarrow> path list \<times> path list \<times> path list
    \<Rightarrow> path list \<times> path list \<times> path list" where
  "impactStep graph (stack, seen, result) =
     (let cur = last stack; stack1 = butlast stack in
      if cur = [] \<or> cur \<in> set seen then (stack1, seen, result)
      else
        let seen1 = Set_add cur seen;
            result1 = (if cur \<in> set (pages graph) then Set_add cur result else result)
        in case dependents graph cur of
             None \<Rightarrow> (stack1, seen1, result1)
           | Some ups \<Rightarrow>
               (case fold (visitUp graph seen1) ups (result1, stack1) of
                  (result2, stack2) \<Rightarrow> (stack2, seen1, result2)))"

partial_function (option) impactLoop :: "dependency_graph \<Rightarrow> path list \<Rightarrow> path list \<Rightarrow> path list
    \<Rightarrow> path list option" where
  "impactLoop graph stack seen result =
     (if stack = [] then Some result
      else case impactStep graph (stack, seen, result) of
             (stack', seen', result') \<Rightarrow> impactLoop graph stack' seen' result')"

definition getImpactedPages :: "env \<Rightarrow> string list \<Rightarrow> dependency_graph \<Rightarrow> path list option" where
  "getImpactedPages e changedPaths graph =
     impactLoop graph (map (pathResolve e (CWD e)) changedPaths) [] []"

definition includeEdges :: "dependency_graph \<Rightarrow> (path \<times> path) set" where
  "includeEdges graph = {(a, b). \<exists>incs. includes' graph a = Some incs \<and> b \<in> set incs}"

definition dependentEdges :: "dependency_graph \<Rightarrow> (path \<times> path) set" where
  "dependentEdges graph = {(b, a). \<exists>deps. dependents graph b = Some deps \<and> a \<in> set deps}"

section \<open>Rendering: \<open>compilePage\<close> and \<open>compileAll\<close> (scripts/compile-ejs.js)\<close>

text \<open>
  The output directory is the list of files written so far, in order. A compile function
  returns that list together with the error it raised, if any: what was written before an
  exception stays written.
\<close>

text \<open>The replacement of the pattern \<open>/\.ejs$/\<close>, which matches at the end of the string only.\<close>

definition replaceEjs :: "string \<Rightarrow> string \<Rightarrow> string" where
  "replaceEjs str replacement =
     (if endsWith str ''.ejs'' then take (length str - 4) str @ replacement else str)"

definition partialKey :: "env \<Rightarrow> path \<Rightarrow> string" where
  "partialKey e file = replaceEjs (pathRelative e (PARTIALS_DIR e) file) []"

definition outPath :: "env \<Rightarrow> path \<Rightarrow> path" where
  "outPath e pageFileAbs =
     pathJoin e (OUT_DIR e) (replaceEjs (pathRelative e (PAGES_DIR e) pageFileAbs) ''.html'')"

fun readPartialsLoop :: "env \<Rightarrow> path list \<Rightarrow> (string \<rightharpoonup> string) \<Rightarrow> error + (string \<rightharpoonup> string)" where
  "readPartialsLoop e [] partialsMap = Inr partialsMap"
| "readPartialsLoop e (file # files) partialsMap =
     (case readEjsFile e file of
        Inl err \<Rightarrow> Inl err
      | Inr content \<Rightarrow> readPartialsLoop e files (partialsMap(partialKey e file \<mapsto> content)))"

definition readPartials :: "env \<Rightarrow> error + (string \<rightharpoonup> string)" where
  "readPartials e =
     (if \<not> existsSync e (PARTIALS_DIR e) then Inr Map.empty
      else case walkDir e (PARTIALS_DIR e) of
             Inl err \<Rightarrow> Inl err
           | Inr files \<Rightarrow> readPartialsLoop e files Map.empty)"

type_synonym out_files = "(path \<times> string) list"

definition compilePageWithPartials :: "env \<Rightarrow> path \<Rightarrow> (string \<rightharpoonup> string) \<Rightarrow> out_files \<Rightarrow> out_files \<times> error option" where
  "compilePageWithPartials e pageFileAbs partialsMap written =
     (if \<not> existsSync e pageFileAbs then (written, None)
      else case readEjsFile e pageFileAbs of
             Inl err \<Rightarrow> (written, Some err)
           | Inr template \<Rightarrow>
              (case render e template partialsMap pageFileAbs of
                 Inl err \<Rightarrow> (written, Some err)
               | Inr html \<Rightarrow>
                   if \<not> mkdirSync e (dirname e (outPath e pageFileAbs)) then (written, Some IOError)
                   else if \<not> writeFileSync e (outPath e pageFileAbs) html then (written, Some IOError)
                   else (written @ [(outPath e pageFileAbs, html)], None)))"

definition compilePage :: "env \<Rightarrow> path \<Rightarrow> out_files \<Rightarrow> out_files \<times> error option" where
  "compilePage e pageFileAbs written =
     (if \<not> mkdirSync e (OUT_DIR e) then (written, Some IOError)
      else case readPartials e of
             Inl err \<Rightarrow> (written, Some err)
           | Inr partialsMap \<Rightarrow> compilePageWithPartials e pageFileAbs partialsMap written)"

fun compileLoop :: "env \<Rightarrow> (string \<rightharpoonup> string) \<Rightarrow> path list \<Rightarrow> out_files \<Rightarrow> out_files \<times> error option" where
  "compileLoop e partialsMap [] written = (written, None)"
| "compileLoop e partialsMap (page # rest) written =
     (case compilePageWithPartials e page partialsMap written of
        (written', Some err) \<Rightarrow> (written', Some err)
      | (written', None) \<Rightarrow> compileLoop e partialsMap rest written')"

definition compileAll :: "env \<Rightarrow> out_files \<Rightarrow> out_files \<times> error option" where
  "compileAll e written =
     (if \<not> mkdirSync e (OUT_DIR e) then (written, Some IOError)
      else case readPartials e of
             Inl err \<Rightarrow> (written, Some err)
           | Inr partialsMap \<Rightarrow>
              (case walkDir e (PAGES_DIR e) of
                 Inl err \<Rightarrow> (written, Some err)
               | Inr pageFiles \<Rightarrow> compileLoop e partialsMap pageFiles written))"

section \<open>Change scheduler: \<open>ejsLiveReload\<close> (vite.config.js)\<close>

text \<open>
  The closure variables \<open>graph\<close>, \<open>pending\<close> and \<open>timer\<close>, and around them what the plugin
  acts on: the timeouts armed in the event loop, each a handle with the time it is due, the
  number of handles handed out, the files written, the reload messages sent, and the number
  of calls of \<open>flush\<close>. Time is a natural number of milliseconds.
\<close>

record scheduler =
  graph :: "dependency_graph option"
  pending :: "path list"
  timer :: "nat option"
  timeouts :: "(nat \<times> nat) list"
  handles :: nat
  written :: out_files
  reloads :: nat
  flushes :: nat

definition toAbs :: "env \<Rightarrow> string \<Rightarrow> path" where
  "toAbs e p = (if pathIsAbsolute e p then p else pathResolve e (CWD e) p)"

text \<open>The loop \<open>for (const page of impacted) await compilePage(page)\<close>.\<close>

fun compileEach :: "env \<Rightarrow> path list \<Rightarrow> out_files \<Rightarrow> out_files \<times> error option" where
  "compileEach e [] out = (out, None)"
| "compileEach e (page # rest) out =
     (case compilePage e page out of
        (out', Some err) \<Rightarrow> (out', Some err)
      | (out', None) \<Rightarrow> compileEach e rest out')"

definition flush :: "env \<Rightarrow> scheduler \<Rightarrow> (scheduler \<times> error option) option" where
  "flush e st =
     (let changed = pending st;
          st1 = st\<lparr>pending := [],
                   timeouts := filter (\<lambda>(h, due). Some h \<noteq> timer st) (timeouts st),
                   timer := None,
                   flushes := flushes st + 1\<rparr>
      in case buildDependencyGraph e of
           Inl err \<Rightarrow> Some (st1, Some err)
         | Inr g \<Rightarrow>
            (let st2 = st1\<lparr>graph := Some g\<rparr> in
             case getImpactedPages e changed g of
               None \<Rightarrow> None
             | Some impacted \<Rightarrow>
                (case (if length impacted = 0 then compileAll e (written st2)
                       else compileEach e impacted (written st2)) of
                   (out', Some err) \<Rightarrow> Some (st2\<lparr>written := out'\<rparr>, Some err)
                 | (out', None) \<Rightarrow> Some (st2\<lparr>written := out', reloads := reloads st2 + 1\<rparr>, None))))"

text \<open>
  \<open>setTimeout(cb, 25)\<close> at time \<open>now\<close> arms a timeout due at \<open>now + 25\<close> under a fresh
  handle. A handle is an object, so \<open>!timer\<close> holds exactly when \<open>timer\<close> is null.
\<close>

definition schedule :: "nat \<Rightarrow> path \<Rightarrow> scheduler \<Rightarrow> scheduler" where
  "schedule now file st =
     (let st1 = st\<lparr>pending := Set_add file (pending st)\<rparr> in
      if timer st1 = None
      then st1\<lparr>timer := Some (handles st1),
               timeouts := timeouts st1 @ [(handles st1, now + 25)],
               handles := handles st1 + 1\<rparr>
      else st1)"

text \<open>The handler \<open>mkHandler(type)\<close> installed for change, add and unlink events.\<close>

definition watcherEvent :: "env \<Rightarrow> nat \<Rightarrow> string \<Rightarrow> scheduler \<Rightarrow> scheduler" where
  "watcherEvent e now file st =
     (if \<not> endsWith file ''.ejs'' then st else schedule now (toAbs e file) st)"

text \<open>
  The event loop. When time advances to \<open>now\<close>, the callbacks of the timeouts due by then
  run, each one a call of \<open>flush\<close> that completes before the next event; a timeout that
  was cleared in between does not run. Watcher events are delivered in time order.
\<close>

fun runTimeouts :: "env \<Rightarrow> (nat \<times> nat) list \<Rightarrow> scheduler \<Rightarrow> scheduler option" where
  "runTimeouts e [] st = Some st"
| "runTimeouts e (t # due) st =
     (if t \<in> set (timeouts st)
      then (case flush e (st\<lparr>timeouts := remove1 t (timeouts st)\<rparr>) of
              None \<Rightarrow> None
            | Some (st', err) \<Rightarrow> runTimeouts e due st')
      else runTimeouts e due st)"

definition advance :: "env \<Rightarrow> nat \<Rightarrow> scheduler \<Rightarrow> scheduler option" where
  "advance e now st = runTimeouts e (filter (\<lambda>(h, due). due \<le> now) (timeouts st)) st"

fun deliver :: "env \<Rightarrow> (nat \<times> string) list \<Rightarrow> scheduler \<Rightarrow> scheduler option" where
  "deliver e [] st = Some st"
| "deliver e ((now, file) # events) st =
     (case advance e now st of
        None \<Rightarrow> None
      | Some st' \<Rightarrow> deliver e events (watcherEvent e now file st'))"

section \<open>Icon sprite: \<open>generateSvgSprite\<close> (scripts/svg-sprite.js)\<close>

text \<open>
  The computation of the constant \<open>sprite\<close> from the directory listing (lines 90 to 119).
  \<open>makeSymbolId\<close> and \<open>svgToSymbol\<close> work by regular expressions on their arguments and
  are parameters here, as are \<open>extname\<close> and \<open>toLowerCase\<close>. The reads run in parallel:
  \<open>completionOrder\<close> is the order in which they finish, and a symbol is pushed when its
  read finishes. \<open>Array.prototype.sort\<close> is stable, as \<open>sort_key\<close> is.
\<close>

record dirent =
  name :: string
  isFile :: bool

record sprite_lib =
  sprite_extname :: "string \<Rightarrow> string"
  toLowerCase :: "string \<Rightarrow> string"
  makeSymbolId :: "string \<Rightarrow> string"
  svgToSymbol :: "string \<Rightarrow> string \<Rightarrow> string option"


definition svgFiles :: "sprite_lib \<Rightarrow> dirent list \<Rightarrow> string list" where
  "svgFiles lib dirEntries =
     sort (map name (filter (\<lambda>entry. isFile entry
                               \<and> toLowerCase lib (sprite_extname lib (name entry)) = ''.svg'')
                       dirEntries))"



section \<open>A small project, for concrete runs\<close>

text \<open>
  Two documents and two fragments: \<open>a.ejs\<close> includes \<open>nav\<close>, \<open>nav\<close> includes \<open>logo\<close>
  after a comment, \<open>b.ejs\<close> includes nothing.
\<close>

definition demoFiles :: "(path \<times> string) list" where
  "demoFiles =
     [(''/w/src/pages/a.ejs'', ''<%- include('' @ [CHR 0x27] @ ''../partials/nav'' @ [CHR 0x27] @ '') %>''),
      (''/w/src/pages/b.ejs'', ''<p>b</p>''),
      (''/w/src/partials/nav.ejs'', ''<%# menu %><%- include('' @ [CHR 0x27] @ ''logo'' @ [CHR 0x27] @ '') %>''),
      (''/w/src/partials/logo.ejs'', ''<svg></svg>'')]"

definition demoEnv :: env where
  "demoEnv = \<lparr>
     CWD = ''/w'',
     PAGES_DIR = ''/w/src/pages'',
     PARTIALS_DIR = ''/w/src/partials'',
     OUT_DIR = ''/w/dev-html'',
     pathResolve = (\<lambda>dir p.
        if p = ''../partials/nav'' then ''/w/src/partials/nav''
        else if take 1 p = ''/'' then p else dir @ ''/'' @ p),
     pathJoin = (\<lambda>dir p. dir @ ''/'' @ p),
     pathRelative = (\<lambda>from to. drop (length from + 1) to),
     pathIsAbsolute = (\<lambda>p. take 1 p = ''/''),
     dirname = (\<lambda>p. rev (drop 1 (dropWhile (\<lambda>c. c \<noteq> CHR ''/'') (rev p)))),
     extname = (\<lambda>p. if endsWith p ''.ejs'' then ''.ejs'' else []),
     existsSync = (\<lambda>p. p \<in> set (map fst demoFiles)
        \<or> p \<in> {''/w/src/pages'', ''/w/src/partials''}),
     readFileSync = (\<lambda>p. case map_of demoFiles p of None \<Rightarrow> Inl IOError | Some c \<Rightarrow> Inr c),
     fsTree = (\<lambda>dir.
        if dir = ''/w/src/pages'' then Some (Dir [(''a.ejs'', File), (''b.ejs'', File), (''notes.txt'', File)])
        else if dir = ''/w/src/partials'' then Some (Dir [(''nav.ejs'', File), (''logo.ejs'', File)])
        else None),
     includeMatches = (\<lambda>src.
        if src = ''<%- include('' @ [CHR 0x27] @ ''../partials/nav'' @ [CHR 0x27] @ '') %>''
          then [''../partials/nav'']
        else if src = ''<%- include('' @ [CHR 0x27] @ ''logo'' @ [CHR 0x27] @ '') %>''
          then [''logo'']
        else []),
     render = (\<lambda>template parts filename. Inr template),
     mkdirSync = (\<lambda>p. True),
     writeFileSync = (\<lambda>p html. True)\<rparr>"

definition demoGraph :: dependency_graph where
  "demoGraph = \<lparr>
     pages = [''/w/src/pages/a.ejs'', ''/w/src/pages/b.ejs''],
     partials = [''/w/src/partials/nav.ejs'', ''/w/src/partials/logo.ejs''],
     includes' = [''/w/src/pages/a.ejs'' \<mapsto> [''/w/src/partials/nav.ejs''],
                  ''/w/src/pages/b.ejs'' \<mapsto> [],
                  ''/w/src/partials/nav.ejs'' \<mapsto> [''/w/src/partials/logo.ejs''],
                  ''/w/src/partials/logo.ejs'' \<mapsto> []],
     dependents = [''/w/src/partials/nav.ejs'' \<mapsto> [''/w/src/pages/a.ejs''],
                   ''/w/src/partials/logo.ejs'' \<mapsto> [''/w/src/partials/nav.ejs'']]\<rparr>"

text \<open>A graph with an inclusion cycle between two fragments.\<close>

definition cycleGraph :: dependency_graph where
  "cycleGraph = \<lparr>
     pages = [''/w/src/pages/a.ejs''],
     partials = [''/w/src/partials/x.ejs'', ''/w/src/partials/y.ejs''],
     includes' = [''/w/src/pages/a.ejs'' \<mapsto> [''/w/src/partials/x.ejs''],
                  ''/w/src/partials/x.ejs'' \<mapsto> [''/w/src/partials/y.ejs''],
                  ''/w/src/partials/y.ejs'' \<mapsto> [''/w/src/partials/x.ejs'']],
     dependents = [''/w/src/partials/x.ejs'' \<mapsto> [''/w/src/pages/a.ejs'', ''/w/src/partials/y.ejs''],
                   ''/w/src/partials/y.ejs'' \<mapsto> [''/w/src/partials/x.ejs'']]\<rparr>"

definition demoContent :: "path \<Rightarrow> string" where
  "demoContent p = (case map_of demoFiles p of None \<Rightarrow> [] | Some c \<Rightarrow> c)"

text \<open>The same project with a template error in \<open>a.ejs\<close>: rendering it raises.\<close>

definition failEnv :: env where
  "failEnv = demoEnv\<lparr>render := (\<lambda>template parts filename.
     if filename = ''/w/src/pages/a.ejs'' then Inl RenderError else Inr template)\<rparr>"

definition demoIdle :: scheduler where
  "demoIdle = \<lparr>graph = None, pending = [], timer = None, timeouts = [], handles = 0,
     written = [], reloads = 0, flushes = 0\<rparr>"

definition demoPartials :: "string \<rightharpoonup> string" where
  "demoPartials = [''nav'' \<mapsto> ''<%- include('' @ [CHR 0x27] @ ''logo'' @ [CHR 0x27] @ '') %>'',
                   ''logo'' \<mapsto> ''<svg></svg>'']"

text \<open>An icons directory with two icons and one other file.\<close>

definition demoLib :: sprite_lib where
  "demoLib = \<lparr>
     sprite_extname = (\<lambda>p. drop (length p - 4) p),
     toLowerCase = (\<lambda>s. s),
     makeSymbolId = (\<lambda>fileName. ''icon-'' @ take (length fileName - 4) fileName),
     svgToSymbol = (\<lambda>ident source.
        if source = [] then None
        else Some (''<symbol id='' @ ident @ ''>'' @ source @ ''</symbol>''))\<rparr>"


definition demoListing :: "dirent list" where
  "demoListing = [\<lparr>name = ''b.svg'', isFile = True\<rparr>, \<lparr>name = ''notes.txt'', isFile = True\<rparr>,
                  \<lparr>name = ''a.svg'', isFile = True\<rparr>]"


section \<open>Predicates used in the statements\<close>

text \<open>
  Whether a text contains the comment-opening marker \<open><%#\<close> at some position.
\<close>

definition containsCommentOpen :: "string \<Rightarrow> bool" where
  "containsCommentOpen str = list_ex (startsWith str ''<%#'') [0..<length str]"

declare commentLoop.simps [simp del] stripLoop.simps [simp del]

text \<open>
  The invariant of the traversal loop, relative to the set \<open>C\<close> of start paths: everything
  on the stack, seen or reported is reachable; every start path and every dependent of a seen
  path is seen or still on the stack; every seen document is reported.
\<close>

definition impactInv :: "dependency_graph \<Rightarrow> path set \<Rightarrow> path list \<times> path list \<times> path list \<Rightarrow> bool" where
  "impactInv g C = (\<lambda>(stack, seen, result).
     set stack \<subseteq> (dependentEdges g)\<^sup>* `` C
     \<and> set seen \<subseteq> (dependentEdges g)\<^sup>* `` C
     \<and> set result \<subseteq> set (pages g) \<inter> (dependentEdges g)\<^sup>* `` C
     \<and> C \<subseteq> set seen \<union> set stack
     \<and> dependentEdges g `` set seen \<subseteq> set seen \<union> set stack
     \<and> set seen \<inter> set (pages g) \<subseteq> set result
     \<and> [] \<notin> set stack)"

text \<open>
  The invariant of the graph-building loop: the two maps are transposes, every recorded
  include set is the scan of its file, and the dependents map has finitely many keys.
\<close>

definition graphInv :: "env \<Rightarrow> (path \<rightharpoonup> path list) \<times> (path \<rightharpoonup> path list) \<Rightarrow> bool" where
  "graphInv e = (\<lambda>(incl, deps).
     (\<forall>a b. (\<exists>incs. incl a = Some incs \<and> b \<in> set incs) = (\<exists>ds. deps b = Some ds \<and> a \<in> set ds))
     \<and> (\<forall>f incs. incl f = Some incs \<longrightarrow> scanIncludes e f = Inr incs)
     \<and> finite (dom deps))"


section \<open>Properties of the comment scanner\<close>

lemma startsWith_drop:
  "startsWith str search i \<Longrightarrow> drop i str = search @ drop (i + length search) str"
proof -
  assume "startsWith str search i"
  then have "take (length search) (drop i str) = search"
    by (simp add: startsWith_def)
  moreover have "take (length search) (drop i str) @ drop (length search) (drop i str) = drop i str"
    by (rule append_take_drop_id)
  ultimately show ?thesis
    by (simp add: add.commute)
qed

lemma startsWith_bound:
  "startsWith str search i \<Longrightarrow> search \<noteq> [] \<Longrightarrow> i + length search \<le> length str"
proof -
  assume "startsWith str search i" and ne: "search \<noteq> []"
  then have "length (take (length search) (drop i str)) = length search"
    by (simp add: startsWith_def)
  with ne show ?thesis by (cases search) (auto simp: min_def split: if_splits)
qed

lemma commentStep_newlines:
  assumes "i < length str" and "commentStep str (i, depth, out) = (i', depth', out')"
  shows "count_list out' newline + count_list (drop i' str) newline
       = count_list out newline + count_list (drop i str) newline"
proof -
  consider (esc) "startsWith str ''<%%'' i"
    | (opn) "\<not> startsWith str ''<%%'' i" "startsWith str ''<%'' i"
    | (cls) "\<not> startsWith str ''<%%'' i" "\<not> startsWith str ''<%'' i" "startsWith str ''%>'' i"
    | (chr) "\<not> startsWith str ''<%%'' i" "\<not> startsWith str ''<%'' i" "\<not> startsWith str ''%>'' i"
    by blast
  then show ?thesis
  proof cases
    case esc
    from startsWith_drop [OF esc] assms esc show ?thesis
      by (auto simp: newline_def eval_nat_numeral)
  next
    case opn
    from startsWith_drop [OF opn(2)] assms opn show ?thesis
      by (auto simp: newline_def eval_nat_numeral)
  next
    case cls
    from startsWith_drop [OF cls(3)] assms cls show ?thesis
      by (auto simp: newline_def eval_nat_numeral)
  next
    case chr
    from assms(1) have "drop i str = str ! i # drop (Suc i) str"
      by (simp add: Cons_nth_drop_Suc)
    with assms chr show ?thesis
      by auto
  qed
qed

lemma commentStep_bounds:
  assumes "i < length str" and "commentStep str (i, depth, out) = (i', depth', out')"
  shows "i < i'" and "i' \<le> length str" and "length out' + i \<le> length out + i'"
  using assms startsWith_bound [of str "''<%%''" i] startsWith_bound [of str "''<%''" i]
    startsWith_bound [of str "''%>''" i]
  by (auto split: if_splits)

lemma commentLoop_newlines:
  "commentLoop str (i, depth, out) = (i', depth', out') \<Longrightarrow>
   count_list out' newline + count_list (drop i' str) newline
     = count_list out newline + count_list (drop i str) newline"
proof (induction str "(i, depth, out)" arbitrary: i depth out rule: commentLoop.induct)
  case (1 str i depth out)
  show ?case
  proof (cases "i < length str \<and> depth > 0")
    case True
    obtain i1 d1 o1 where st: "commentStep str (i, depth, out) = (i1, d1, o1)"
      by (cases "commentStep str (i, depth, out)") auto
    from True st "1.prems" have "commentLoop str (i1, d1, o1) = (i', depth', out')"
      by (simp add: commentLoop.simps [of str i depth out])
    from "1.hyps" [OF True st this] commentStep_newlines [OF _ st] True
    show ?thesis by simp
  next
    case False
    with "1.prems" show ?thesis
      by (simp add: commentLoop.simps [of str i depth out])
  qed
qed

lemma commentLoop_bounds:
  "commentLoop str (i, depth, out) = (i', depth', out') \<Longrightarrow> i \<le> length str \<Longrightarrow>
   i \<le> i' \<and> i' \<le> length str \<and> length out' + i \<le> length out + i'"
proof (induction str "(i, depth, out)" arbitrary: i depth out rule: commentLoop.induct)
  case (1 str i depth out)
  show ?case
  proof (cases "i < length str \<and> depth > 0")
    case True
    obtain i1 d1 o1 where st: "commentStep str (i, depth, out) = (i1, d1, o1)"
      by (cases "commentStep str (i, depth, out)") auto
    from True st "1.prems" have lp: "commentLoop str (i1, d1, o1) = (i', depth', out')"
      by (simp add: commentLoop.simps [of str i depth out])
    from True st have b: "i < i1" "i1 \<le> length str" "length o1 + i \<le> length out + i1"
      by (auto dest: commentStep_bounds simp del: commentStep.simps)
    from "1.hyps" [OF True st lp b(2)] b show ?thesis by simp
  next
    case False
    with "1.prems" show ?thesis
      by (simp add: commentLoop.simps [of str i depth out])
  qed
qed

lemma stripLoop_newlines:
  "count_list (stripLoop str i out) newline
     = count_list out newline + count_list (drop i str) newline"
proof (induction str i out rule: stripLoop.induct)
  case (1 str i out)
  show ?case
  proof (cases "i < length str")
    case False
    then show ?thesis by (simp add: stripLoop.simps [of str i out])
  next
    case lt: True
    show ?thesis
    proof (cases "startsWith str ''<%#'' i")
      case True
      obtain i' d' out' where cl: "commentLoop str (i + 3, 1, out) = (i', d', out')"
        by (cases "commentLoop str (i + 3, 1, out)") auto
      have "count_list (stripLoop str i' out') newline
          = count_list out' newline + count_list (drop i' str) newline"
        using "1.IH"(1) [OF lt True cl [symmetric] refl] .
      also have "\<dots> = count_list out newline + count_list (drop (i + 3) str) newline"
        by (rule commentLoop_newlines [OF cl])
      also have "\<dots> = count_list out newline + count_list (drop i str) newline"
        using startsWith_drop [OF True] by (simp add: newline_def eval_nat_numeral)
      finally show ?thesis
        using lt True cl by (simp add: stripLoop.simps [of str i out])
    next
      case False
      from lt have "drop i str = str ! i # drop (Suc i) str"
        by (simp add: Cons_nth_drop_Suc)
      with "1.IH"(2) [OF lt False] lt False show ?thesis
        by (simp add: stripLoop.simps [of str i out])
    qed
  qed
qed

text \<open>
  Claim C4. For every input string, the output of \<open>stripEjsComments\<close> contains exactly as
  many newline characters as the input. The statement has no side condition, so it covers
  inputs that end inside an unterminated comment region.
\<close>

theorem stripEjsComments_preserves_newlines:
  "count_list (stripEjsComments str) newline = count_list str newline"
  by (simp add: stripEjsComments_def stripLoop_newlines)


lemma containsCommentOpen_iff:
  "containsCommentOpen str = (\<exists>j<length str. startsWith str ''<%#'' j)"
  by (auto simp: containsCommentOpen_def list_ex_iff)

lemma stripLoop_no_marker:
  "(\<forall>j. i \<le> j \<and> j < length str \<longrightarrow> \<not> startsWith str ''<%#'' j) \<Longrightarrow>
   stripLoop str i out = out @ drop i str"
proof (induction str i out rule: stripLoop.induct)
  case (1 str i out)
  show ?case
  proof (cases "i < length str")
    case False
    then show ?thesis by (simp add: stripLoop.simps [of str i out])
  next
    case lt: True
    with "1.prems" have no: "\<not> startsWith str ''<%#'' i" by simp
    from "1.prems" have "\<forall>j. i + 1 \<le> j \<and> j < length str \<longrightarrow> \<not> startsWith str ''<%#'' j"
      by simp
    from "1.IH"(2) [OF lt no this] have "stripLoop str (i + 1) (out @ [str ! i]) = (out @ [str ! i]) @ drop (i + 1) str" .
    with lt no show ?thesis
      by (simp add: stripLoop.simps [of str i out] Cons_nth_drop_Suc)
  qed
qed

lemma stripLoop_length_le:
  "i \<le> length str \<Longrightarrow> length (stripLoop str i out) + i \<le> length out + length str"
proof (induction str i out rule: stripLoop.induct)
  case (1 str i out)
  show ?case
  proof (cases "i < length str")
    case False
    then have "stripLoop str i out = out" by (simp add: stripLoop.simps [of str i out])
    with "1.prems" show ?thesis by simp
  next
    case lt: True
    show ?thesis
    proof (cases "startsWith str ''<%#'' i")
      case True
      obtain i' d' out' where cl: "commentLoop str (i + 3, 1, out) = (i', d', out')"
        by (cases "commentLoop str (i + 3, 1, out)") auto
      from startsWith_bound [OF True] have b3: "i + 3 \<le> length str" by simp
      from commentLoop_bounds [OF cl b3]
      have b: "i + 3 \<le> i'" "i' \<le> length str" "length out' + (i + 3) \<le> length out + i'"
        by simp_all
      from "1.IH"(1) [OF lt True cl [symmetric] refl b(2)]
      have "length (stripLoop str i' out') + i' \<le> length out' + length str" .
      with b have "length (stripLoop str i' out') + i \<le> length out + length str"
        by linarith
      then show ?thesis
        using lt True cl by (simp add: stripLoop.simps [of str i out])
    next
      case False
      from lt have "i + 1 \<le> length str" by simp
      from "1.IH"(2) [OF lt False this] lt False show ?thesis
        by (simp add: stripLoop.simps [of str i out])
    qed
  qed
qed

lemma stripLoop_length_less:
  "i \<le> j \<Longrightarrow> j < length str \<Longrightarrow> startsWith str ''<%#'' j \<Longrightarrow>
   length (stripLoop str i out) + i < length out + length str"
proof (induction str i out rule: stripLoop.induct)
  case (1 str i out)
  from "1.prems" have lt: "i < length str" by simp
  show ?case
  proof (cases "startsWith str ''<%#'' i")
    case True
    obtain i' d' out' where cl: "commentLoop str (i + 3, 1, out) = (i', d', out')"
      by (cases "commentLoop str (i + 3, 1, out)") auto
    from startsWith_bound [OF True] have b3: "i + 3 \<le> length str" by simp
    from commentLoop_bounds [OF cl b3]
    have b: "i + 3 \<le> i'" "i' \<le> length str" "length out' + (i + 3) \<le> length out + i'"
      by simp_all
    from stripLoop_length_le [OF b(2)]
    have "length (stripLoop str i' out') + i' \<le> length out' + length str" .
    with b have "length (stripLoop str i' out') + i < length out + length str"
      by linarith
    then show ?thesis
      using lt True cl by (simp add: stripLoop.simps [of str i out])
  next
    case False
    with "1.prems" have "i \<noteq> j" by auto
    with "1.prems" have "i + 1 \<le> j" by simp
    from "1.IH"(2) [OF lt False this "1.prems"(2,3)] lt False show ?thesis
      by (simp add: stripLoop.simps [of str i out])
  qed
qed

lemma stripEjsComments_fixed_iff:
  "(stripEjsComments t = t) = (\<not> containsCommentOpen t)"
proof
  assume fx: "stripEjsComments t = t"
  show "\<not> containsCommentOpen t"
  proof
    assume "containsCommentOpen t"
    then obtain j where "j < length t" "startsWith t ''<%#'' j"
      by (auto simp: containsCommentOpen_iff)
    from stripLoop_length_less [OF _ this, of 0 "[]"]
    have "length (stripEjsComments t) < length t"
      by (simp add: stripEjsComments_def)
    with fx show False by simp
  qed
next
  assume "\<not> containsCommentOpen t"
  then have "\<forall>j. 0 \<le> j \<and> j < length t \<longrightarrow> \<not> startsWith t ''<%#'' j"
    by (simp add: containsCommentOpen_iff)
  from stripLoop_no_marker [OF this, of "[]"] show "stripEjsComments t = t"
    by (simp add: stripEjsComments_def)
qed

text \<open>
  Claim C5, as stated, fails: text before and after a comment region is joined, and the
  joined text can itself contain a comment-opening marker. On \<open><<%#%>%#\<close> the first
  pass yields \<open><%#\<close> and the second pass yields the empty string.
\<close>

theorem stripEjsComments_not_idempotent:
  "stripEjsComments (stripEjsComments ''<<%#%>%#'') \<noteq> stripEjsComments ''<<%#%>%#''"
  by code_simp

text \<open>
  Claim C5, amended. Stripping a second time changes nothing exactly when the output of the
  first pass contains no comment-opening marker \<open><%#\<close>.
\<close>

theorem stripEjsComments_idempotent_iff:
  "(stripEjsComments (stripEjsComments s) = stripEjsComments s)
     = (\<not> containsCommentOpen (stripEjsComments s))"
  by (rule stripEjsComments_fixed_iff)

theorem stripEjsComments_idempotent_iff_witness:
  "\<not> containsCommentOpen (stripEjsComments ''a<%# x <%- include(y) %> %>b'')
   \<and> stripEjsComments (stripEjsComments ''a<%# x <%- include(y) %> %>b'')
       = stripEjsComments ''a<%# x <%- include(y) %> %>b''"
proof -
  have "\<not> containsCommentOpen (stripEjsComments ''a<%# x <%- include(y) %> %>b'')"
    by code_simp
  with stripEjsComments_idempotent_iff [of "''a<%# x <%- include(y) %> %>b''"]
  show ?thesis by simp
qed

text \<open>
  Claim C8, as stated, fails: inside a comment region the escaped-delimiter sequence
  \<open><%%\<close> is not copied to the output. At position 3 of \<open><%#<%%%>\<close> the scanner is at
  depth 1 on \<open><%%\<close>; the step leaves the output empty, and so does the whole function.
\<close>

theorem commentStep_escape_counterexample:
  "startsWith ''<%#<%%%>'' ''<%%'' 3
   \<and> commentStep ''<%#<%%%>'' (3, 1, []) = (6, 1, [])
   \<and> commentStep ''<%#<%%%>'' (3, 1, []) \<noteq> (6, 1, ''<%%'')
   \<and> stripEjsComments ''<%#<%%%>'' = []"
  by code_simp

text \<open>
  Claim C8, amended. Inside a comment region (depth at least 1), an escaped-delimiter
  sequence \<open><%%\<close> at the current position is skipped: the position advances by three,
  nothing is appended to the output, the nesting depth is unchanged, and the scan goes on
  from there.
\<close>

theorem commentStep_escape_skipped:
  assumes "0 < depth" and "startsWith str ''<%%'' i"
  shows "commentStep str (i, depth, out) = (i + 3, depth, out)
       \<and> commentLoop str (i, depth, out) = commentLoop str (i + 3, depth, out)"
proof -
  from startsWith_bound [OF assms(2)] have "i < length str" by simp
  with assms show ?thesis
    by (simp add: commentLoop.simps [of str i depth out])
qed

theorem commentStep_escape_skipped_witness:
  "(0::nat) < 1 \<and> startsWith ''<%# a<%%b %>c'' ''<%%'' 5
   \<and> commentStep ''<%# a<%%b %>c'' (5, 1, []) = (5 + 3, 1, [])
   \<and> commentLoop ''<%# a<%%b %>c'' (5, 1, []) = commentLoop ''<%# a<%%b %>c'' (5 + 3, 1, [])"
proof -
  have d: "(0::nat) < 1" by simp
  have s: "startsWith ''<%# a<%%b %>c'' ''<%%'' 5" by code_simp
  from commentStep_escape_skipped [OF d s, of "[]"] d s show ?thesis by blast
qed

section \<open>Properties of the include resolver and the graph builder\<close>

lemma set_Set_add: "set (Set_add x xs) = insert x (set xs)"
  by (auto simp: Set_add_def)

text \<open>
  Claim C7. \<open>resolveInclude\<close> resolves the reference against the directory of the
  including file and returns, in this order: the resolved path when its extension is
  \<open>.ejs\<close>; else the path with \<open>.ejs\<close> appended when that file exists; else the bare path
  when it exists; else the path with \<open>.ejs\<close> appended. The function is total: none of its
  branches raises, \<open>existsSync\<close> answers false instead of throwing.
\<close>

theorem resolveInclude_cases:
  fixes e :: env and fromFile :: path and includePath :: string
  defines "base \<equiv> pathResolve e (dirname e fromFile) includePath"
  shows "(extname e base = ''.ejs'' \<longrightarrow> resolveInclude e fromFile includePath = base)
    \<and> (extname e base \<noteq> ''.ejs'' \<and> existsSync e (base @ ''.ejs'')
         \<longrightarrow> resolveInclude e fromFile includePath = base @ ''.ejs'')
    \<and> (extname e base \<noteq> ''.ejs'' \<and> \<not> existsSync e (base @ ''.ejs'') \<and> existsSync e base
         \<longrightarrow> resolveInclude e fromFile includePath = base)
    \<and> (extname e base \<noteq> ''.ejs'' \<and> \<not> existsSync e (base @ ''.ejs'') \<and> \<not> existsSync e base
         \<longrightarrow> resolveInclude e fromFile includePath = base @ ''.ejs'')"
  by (simp add: resolveInclude_def base_def Let_def)
theorem resolveInclude_cases_witness:
  "resolveInclude demoEnv ''/w/src/partials/nav.ejs'' ''logo.ejs'' = ''/w/src/partials/logo.ejs''
   \<and> resolveInclude demoEnv ''/w/src/partials/nav.ejs'' ''logo'' = ''/w/src/partials/logo.ejs''
   \<and> resolveInclude demoEnv ''/w/src/pages/a.ejs'' ''/w/src/partials'' = ''/w/src/partials''
   \<and> resolveInclude demoEnv ''/w/src/pages/a.ejs'' ''missing'' = ''/w/src/pages/missing.ejs''"
proof -
  have b1: "pathResolve demoEnv (dirname demoEnv ''/w/src/partials/nav.ejs'') ''logo.ejs'' = ''/w/src/partials/logo.ejs''"
    and b2: "pathResolve demoEnv (dirname demoEnv ''/w/src/partials/nav.ejs'') ''logo'' = ''/w/src/partials/logo''"
    and b3: "pathResolve demoEnv (dirname demoEnv ''/w/src/pages/a.ejs'') ''/w/src/partials'' = ''/w/src/partials''"
    and b4: "pathResolve demoEnv (dirname demoEnv ''/w/src/pages/a.ejs'') ''missing'' = ''/w/src/pages/missing''"
    by code_simp+
  have x1: "extname demoEnv ''/w/src/partials/logo.ejs'' = ''.ejs''"
    and x2: "extname demoEnv ''/w/src/partials/logo'' \<noteq> ''.ejs''"
    and x3: "extname demoEnv ''/w/src/partials'' \<noteq> ''.ejs''"
    and x4: "extname demoEnv ''/w/src/pages/missing'' \<noteq> ''.ejs''"
    by code_simp+
  have e2: "existsSync demoEnv (''/w/src/partials/logo'' @ ''.ejs'')"
    and e3: "\<not> existsSync demoEnv (''/w/src/partials'' @ ''.ejs'')" "existsSync demoEnv ''/w/src/partials''"
    and e4: "\<not> existsSync demoEnv (''/w/src/pages/missing'' @ ''.ejs'')" "\<not> existsSync demoEnv ''/w/src/pages/missing''"
    by code_simp+
  from resolveInclude_cases [of demoEnv "''/w/src/partials/nav.ejs''" "''logo.ejs''"] b1 x1
  have r1: "resolveInclude demoEnv ''/w/src/partials/nav.ejs'' ''logo.ejs'' = ''/w/src/partials/logo.ejs''"
    by simp
  from resolveInclude_cases [of demoEnv "''/w/src/partials/nav.ejs''" "''logo''"] b2 x2 e2
  have r2: "resolveInclude demoEnv ''/w/src/partials/nav.ejs'' ''logo'' = ''/w/src/partials/logo.ejs''"
    by simp
  from resolveInclude_cases [of demoEnv "''/w/src/pages/a.ejs''" "''/w/src/partials''"] b3 x3 e3
  have r3: "resolveInclude demoEnv ''/w/src/pages/a.ejs'' ''/w/src/partials'' = ''/w/src/partials''"
    by simp
  from resolveInclude_cases [of demoEnv "''/w/src/pages/a.ejs''" "''missing''"] b4 x4 e4
  have r4: "resolveInclude demoEnv ''/w/src/pages/a.ejs'' ''missing'' = ''/w/src/pages/missing.ejs''"
    by simp
  from r1 r2 r3 r4 show ?thesis by blast
qed

lemma addDependent_lookup:
  "addDependent file t deps t' =
     (if t' = t then Some (Set_add file (case deps t of None \<Rightarrow> [] | Some ds \<Rightarrow> ds)) else deps t')"
  by (simp add: addDependent_def Let_def split: option.splits)

lemma addDependent_member:
  "(\<exists>ds. addDependent file t deps b = Some ds \<and> a \<in> set ds)
     = ((\<exists>ds. deps b = Some ds \<and> a \<in> set ds) \<or> (b = t \<and> a = file))"
  by (cases "deps t") (auto simp: addDependent_lookup set_Set_add)

lemma fold_addDependent_member:
  "(\<exists>ds. fold (addDependent file) incs deps b = Some ds \<and> a \<in> set ds)
     = ((\<exists>ds. deps b = Some ds \<and> a \<in> set ds) \<or> (b \<in> set incs \<and> a = file))"
proof (induction incs arbitrary: deps)
  case Nil
  show ?case by simp
next
  case (Cons t incs)
  show ?case
    unfolding fold_simps Cons.IH addDependent_member by auto
qed

lemma dom_fold_addDependent:
  "dom (fold (addDependent file) incs deps) = dom deps \<union> set incs"
proof (induction incs arbitrary: deps)
  case Nil
  show ?case by simp
next
  case (Cons t incs)
  have "dom (addDependent file t deps) = insert t (dom deps)"
    by (auto simp: addDependent_lookup split: if_splits)
  with Cons.IH [of "addDependent file t deps"] show ?case by auto
qed

lemma graphInv_step:
  assumes inv: "graphInv e (incl, deps)" and scan: "scanIncludes e file = Inr incs"
  shows "graphInv e (incl(file \<mapsto> incs), fold (addDependent file) incs deps)"
proof -
  from inv have tr: "\<And>a b. (\<exists>xs. incl a = Some xs \<and> b \<in> set xs) = (\<exists>ds. deps b = Some ds \<and> a \<in> set ds)"
    and det: "\<And>f xs. incl f = Some xs \<Longrightarrow> scanIncludes e f = Inr xs"
    and fin: "finite (dom deps)"
    by (simp_all add: graphInv_def)
  have old: "(\<exists>ds. deps b = Some ds \<and> file \<in> set ds) \<Longrightarrow> b \<in> set incs" for b
  proof -
    assume "\<exists>ds. deps b = Some ds \<and> file \<in> set ds"
    then obtain xs where "incl file = Some xs" "b \<in> set xs" using tr [of "file" b] by blast
    with det [of "file" xs] scan show ?thesis by simp
  qed
  have 1: "(\<exists>xs. (incl(file \<mapsto> incs)) a = Some xs \<and> b \<in> set xs)
     = (\<exists>ds. fold (addDependent file) incs deps b = Some ds \<and> a \<in> set ds)" for a b
  proof (cases "a = file")
    case True
    then show ?thesis
      unfolding fold_addDependent_member using old [of b] by auto
  next
    case False
    then show ?thesis
      unfolding fold_addDependent_member using tr [of a b] by auto
  qed
  have 2: "scanIncludes e f = Inr xs" if "(incl(file \<mapsto> incs)) f = Some xs" for f xs
    using that det scan by (auto split: if_splits)
  have 3: "finite (dom (fold (addDependent file) incs deps))"
    using fin by (simp add: dom_fold_addDependent)
  from 1 2 3 show ?thesis
    unfolding graphInv_def by (simp only: prod.case) blast
qed

lemma graphLoop_inv:
  "graphInv e (incl, deps) \<Longrightarrow> graphLoop e files (incl, deps) = Inr (incl', deps') \<Longrightarrow>
   graphInv e (incl', deps')"
proof (induction files arbitrary: incl deps)
  case Nil
  then show ?case by simp
next
  case (Cons f files)
  from Cons.prems(2) obtain incs where scan: "scanIncludes e f = Inr incs"
    and rest: "graphLoop e files (incl(f \<mapsto> incs), fold (addDependent f) incs deps) = Inr (incl', deps')"
    by (auto split: sum.splits)
  from Cons.IH [OF graphInv_step [OF Cons.prems(1) scan] rest] show ?case .
qed

lemma buildDependencyGraph_inv:
  assumes "buildDependencyGraph e = Inr g"
  shows "graphInv e (includes' g, dependents g)"
proof -
  from assms obtain pageFiles partialFiles incl deps where
    loop: "graphLoop e (Set_of (Set_of pageFiles @ Set_of partialFiles)) (Map.empty, Map.empty) = Inr (incl, deps)"
    and g: "g = \<lparr>pages = Set_of pageFiles, partials = Set_of partialFiles, includes' = incl, dependents = deps\<rparr>"
    by (auto simp: buildDependencyGraph_def Let_def split: sum.splits prod.splits)
  have "graphInv e (Map.empty, Map.empty)"
    by (simp add: graphInv_def)
  from graphLoop_inv [OF this loop] g show ?thesis by simp
qed

text \<open>
  Claim C1. In every graph returned by \<open>buildDependencyGraph\<close>, for all files \<open>a\<close> and
  \<open>b\<close>: \<open>b\<close> is in the include set that the includes map assigns to \<open>a\<close> if and only if
  \<open>a\<close> is in the dependent set that the dependents map assigns to \<open>b\<close>.
\<close>

theorem buildDependencyGraph_transposed:
  assumes "buildDependencyGraph e = Inr g"
  shows "(\<exists>incs. includes' g a = Some incs \<and> b \<in> set incs)
       = (\<exists>deps. dependents g b = Some deps \<and> a \<in> set deps)"
  using buildDependencyGraph_inv [OF assms] by (simp add: graphInv_def)

lemma demo_scan:
  "scanIncludes demoEnv ''/w/src/pages/a.ejs'' = Inr [''/w/src/partials/nav.ejs'']"
  "scanIncludes demoEnv ''/w/src/pages/b.ejs'' = Inr []"
  "scanIncludes demoEnv ''/w/src/partials/nav.ejs'' = Inr [''/w/src/partials/logo.ejs'']"
  "scanIncludes demoEnv ''/w/src/partials/logo.ejs'' = Inr []"
  by code_simp+

lemma demo_walk:
  "walkDir demoEnv (PAGES_DIR demoEnv) = Inr [''/w/src/pages/a.ejs'', ''/w/src/pages/b.ejs'']"
  "walkDir demoEnv (PARTIALS_DIR demoEnv) = Inr [''/w/src/partials/nav.ejs'', ''/w/src/partials/logo.ejs'']"
  by code_simp+

lemma demo_build: "buildDependencyGraph demoEnv = Inr demoGraph"
  by (simp add: buildDependencyGraph_def demo_walk demo_scan Set_of_def Set_add_def
      addDependent_def demoGraph_def)

theorem buildDependencyGraph_transposed_witness:
  "buildDependencyGraph demoEnv = Inr demoGraph
   \<and> (\<exists>incs. includes' demoGraph ''/w/src/pages/a.ejs'' = Some incs \<and> ''/w/src/partials/nav.ejs'' \<in> set incs)
   \<and> (\<exists>deps. dependents demoGraph ''/w/src/partials/nav.ejs'' = Some deps \<and> ''/w/src/pages/a.ejs'' \<in> set deps)"
proof -
  have inc: "\<exists>incs. includes' demoGraph ''/w/src/pages/a.ejs'' = Some incs \<and> ''/w/src/partials/nav.ejs'' \<in> set incs"
    by (simp add: demoGraph_def)
  with buildDependencyGraph_transposed [OF demo_build, of "''/w/src/pages/a.ejs''" "''/w/src/partials/nav.ejs''"]
    demo_build
  show ?thesis by blast
qed

section \<open>Properties of the impact analysis\<close>

lemma fold_visitUp:
  "fold (visitUp g seen) ups (result, stack) = (result', stack') \<Longrightarrow>
   set result' = set result \<union> (set ups \<inter> set (pages g))
   \<and> set stack' = set stack \<union> (set ups - set seen)"
proof (induction ups arbitrary: result stack)
  case Nil
  then show ?case by simp
next
  case (Cons u ups)
  obtain r1 s1 where v: "visitUp g seen u (result, stack) = (r1, s1)"
    by (cases "visitUp g seen u (result, stack)") auto
  with Cons.prems have "fold (visitUp g seen) ups (r1, s1) = (result', stack')"
    by simp
  from Cons.IH [OF this] v show ?case
    by (auto simp: visitUp_def set_Set_add split: if_splits)
qed

lemma dependentEdges_Image:
  "dependentEdges g `` {x} = (case dependents g x of None \<Rightarrow> {} | Some ups \<Rightarrow> set ups)"
  by (auto simp: dependentEdges_def split: option.splits)

lemma impactStep_skip:
  assumes "last stack = [] \<or> last stack \<in> set seen"
  shows "impactStep g (stack, seen, result) = (butlast stack, seen, result)"
  using assms by (simp add: Let_def)

lemma impactStep_visit:
  assumes "last stack \<noteq> []" and "last stack \<notin> set seen"
    and "impactStep g (stack, seen, result) = (stack', seen', result')"
  shows "set seen' = insert (last stack) (set seen)"
    and "set result' = set result
           \<union> (insert (last stack) (dependentEdges g `` {last stack}) \<inter> set (pages g))"
    and "set stack' = set (butlast stack) \<union> (dependentEdges g `` {last stack} - set seen')"
proof -
  let ?cur = "last stack"
  let ?seen1 = "Set_add ?cur seen"
  let ?result1 = "if ?cur \<in> set (pages g) then Set_add ?cur result else result"
  show "set seen' = insert (last stack) (set seen)"
    using assms by (auto simp: Let_def set_Set_add split: option.splits prod.splits)
  show "set result' = set result
           \<union> (insert (last stack) (dependentEdges g `` {last stack}) \<inter> set (pages g))"
  proof (cases "dependents g ?cur")
    case None
    with assms show ?thesis
      by (auto simp: Let_def set_Set_add dependentEdges_Image split: if_splits)
  next
    case (Some ups)
    obtain r2 s2 where f: "fold (visitUp g ?seen1) ups (?result1, butlast stack) = (r2, s2)"
      by (cases "fold (visitUp g ?seen1) ups (?result1, butlast stack)") auto
    with assms Some have "result' = r2" by (simp add: Let_def)
    with fold_visitUp [OF f] Some show ?thesis
      by (auto simp: set_Set_add dependentEdges_Image split: if_splits)
  qed
  show "set stack' = set (butlast stack) \<union> (dependentEdges g `` {last stack} - set seen')"
  proof (cases "dependents g ?cur")
    case None
    with assms show ?thesis
      by (auto simp: Let_def set_Set_add dependentEdges_Image split: if_splits)
  next
    case (Some ups)
    obtain r2 s2 where f: "fold (visitUp g ?seen1) ups (?result1, butlast stack) = (r2, s2)"
      by (cases "fold (visitUp g ?seen1) ups (?result1, butlast stack)") auto
    with assms Some have "stack' = s2" "seen' = ?seen1" by (simp_all add: Let_def)
    with fold_visitUp [OF f] Some show ?thesis
      by (auto simp: set_Set_add dependentEdges_Image split: if_splits)
  qed
qed

lemma impactLoop_total:
  assumes fin: "finite N" and edges: "Range (dependentEdges g) \<subseteq> N"
    and step: "\<And>stack seen result stack' seen' result'.
        I (stack, seen, result) \<Longrightarrow> stack \<noteq> [] \<Longrightarrow>
        impactStep g (stack, seen, result) = (stack', seen', result') \<Longrightarrow>
        I (stack', seen', result')"
  shows "I (stack, seen, result) \<Longrightarrow> set stack \<subseteq> N \<Longrightarrow>
         \<exists>seen' r. impactLoop g stack seen result = Some r \<and> I ([], seen', r)"
proof (induction "card (N - set seen)" arbitrary: stack seen result rule: less_induct)
  case outer: less
  show ?case using outer.prems
  proof (induction "length stack" arbitrary: stack result rule: less_induct)
    case inner: less
    show ?case
    proof (cases "stack = []")
      case True
      with inner.prems show ?thesis
        by (auto simp: impactLoop.simps [of g "[]"])
    next
      case ne: False
      obtain stack' seen' result' where st:
        "impactStep g (stack, seen, result) = (stack', seen', result')"
        by (cases "impactStep g (stack, seen, result)") auto
      have unfold: "impactLoop g stack seen result = impactLoop g stack' seen' result'"
        using ne st by (simp add: impactLoop.simps [of g stack] del: impactStep.simps)
      have I': "I (stack', seen', result')"
        using step [OF inner.prems(1) ne st] .
      from ne have stack_split: "set stack = insert (last stack) (set (butlast stack))"
        by (metis append_butlast_last_id list.simps(15) rotate1.simps(2) set_rotate1)
      show ?thesis
      proof (cases "last stack = [] \<or> last stack \<in> set seen")
        case True
        from impactStep_skip [OF True, of g result] st
        have eq: "stack' = butlast stack" "seen' = seen" "result' = result" by simp_all
        from ne have "length (butlast stack) < length stack" by simp
        moreover from I' eq have "I (butlast stack, seen, result)" by simp
        moreover from inner.prems(2) stack_split have "set (butlast stack) \<subseteq> N" by auto
        ultimately have "\<exists>seen' r. impactLoop g (butlast stack) seen result = Some r \<and> I ([], seen', r)"
          by (rule inner.hyps)
        with unfold eq show ?thesis by simp
      next
        case False
        then have cur: "last stack \<noteq> []" "last stack \<notin> set seen" by simp_all
        note v = impactStep_visit [OF cur st]
        from inner.prems(2) stack_split have curN: "last stack \<in> N" by auto
        have "N - set seen' \<subset> N - set seen"
          using v(1) cur(2) curN by auto
        with fin have "card (N - set seen') < card (N - set seen)"
          by (simp add: psubset_card_mono)
        moreover have "set stack' \<subseteq> N"
          using v(3) inner.prems(2) stack_split edges by auto
        ultimately have "\<exists>seen'' r. impactLoop g stack' seen' result' = Some r \<and> I ([], seen'', r)"
          using I' by (intro outer.hyps)
        with unfold show ?thesis by simp
      qed
    qed
  qed
qed

lemma finite_Range_dependentEdges:
  assumes "finite (dom (dependents g))"
  shows "finite (Range (dependentEdges g))"
proof -
  have "Range (dependentEdges g) = \<Union> (set ` ran (dependents g))"
    by (auto simp: dependentEdges_def ran_def)
  moreover from assms have "finite (ran (dependents g))"
    by (rule finite_ran)
  ultimately show ?thesis by simp
qed

lemma impactLoop_returns:
  assumes "finite (dom (dependents g))"
  shows "\<exists>r. impactLoop g stack [] [] = Some r"
proof -
  let ?N = "set stack \<union> Range (dependentEdges g)"
  have "finite ?N"
    using finite_Range_dependentEdges [OF assms] by simp
  from impactLoop_total [where I = "\<lambda>_. True" and N = ?N and g = g, OF this]
  have "\<exists>seen' r. impactLoop g stack [] [] = Some r \<and> True"
    by blast
  then show ?thesis by simp
qed

lemma getImpactedPages_returns:
  assumes "finite (dom (dependents g))"
  shows "\<exists>r. getImpactedPages e changedPaths g = Some r"
  using impactLoop_returns [OF assms] by (simp add: getImpactedPages_def)

text \<open>
  Claim C6. \<open>getImpactedPages\<close> returns for every graph whose dependents map has finitely
  many keys and every list of changed paths, whether or not the edges contain a cycle.
\<close>

theorem getImpactedPages_terminates:
  assumes "finite (dom (dependents g))"
  shows "\<exists>r. getImpactedPages e changedPaths g = Some r"
proof -
  let ?stack = "map (pathResolve e (CWD e)) changedPaths"
  let ?N = "set ?stack \<union> Range (dependentEdges g)"
  have "finite ?N"
    using finite_Range_dependentEdges [OF assms] by simp
  from impactLoop_total [where I = "\<lambda>_. True" and N = ?N and g = g, OF this]
  have "\<exists>seen' r. impactLoop g ?stack [] [] = Some r \<and> True"
    by blast
  then show ?thesis
    by (simp add: getImpactedPages_def)
qed
lemma impactInv_step:
  assumes ne: "[] \<notin> Range (dependentEdges g)"
    and inv: "impactInv g C (stack, seen, result)" and st: "stack \<noteq> []"
    and step: "impactStep g (stack, seen, result) = (stack', seen', result')"
  shows "impactInv g C (stack', seen', result')"
proof -
  let ?D = "dependentEdges g"
  let ?cur = "last stack"
  let ?R = "?D\<^sup>* `` C"
  from st have cur_in: "?cur \<in> set stack" by simp
  have bl: "set (butlast stack) \<subseteq> set stack"
    by (auto dest: in_set_butlastD)
  from st have cover: "set stack \<subseteq> insert ?cur (set (butlast stack))"
    by (metis append_butlast_last_id list.simps(15) rotate1.simps(2) set_rotate1 subset_refl)
  from inv have i1: "set stack \<subseteq> ?R" and i2: "set seen \<subseteq> ?R"
    and i3: "set result \<subseteq> set (pages g) \<inter> ?R"
    and i4: "C \<subseteq> set seen \<union> set stack"
    and i5: "?D `` set seen \<subseteq> set seen \<union> set stack"
    and i6: "set seen \<inter> set (pages g) \<subseteq> set result"
    and i7: "[] \<notin> set stack"
    by (simp_all add: impactInv_def)
  from i7 cur_in have cur_ne: "?cur \<noteq> []" by metis
  show ?thesis
  proof (cases "?cur \<in> set seen")
    case True
    with impactStep_skip [of stack seen g result] step
    have eq: "stack' = butlast stack" "seen' = seen" "result' = result" by simp_all
    have 1: "set (butlast stack) \<subseteq> ?R" using i1 bl by blast
    have 4: "C \<subseteq> set seen \<union> set (butlast stack)" using i4 cover True by blast
    have 5: "?D `` set seen \<subseteq> set seen \<union> set (butlast stack)" using i5 cover True by blast
    have 7: "[] \<notin> set (butlast stack)" using i7 bl by blast
    from 1 i2 i3 4 5 i6 7 show ?thesis
      by (simp add: impactInv_def eq)
  next
    case False
    note v = impactStep_visit [OF cur_ne False step]
    from i1 cur_in have cur_reach: "?cur \<in> ?R" by blast
    have ups_reach: "?D `` {?cur} \<subseteq> ?R"
    proof
      fix y assume "y \<in> ?D `` {?cur}"
      then have "(?cur, y) \<in> ?D" by simp
      moreover from cur_reach obtain c where "c \<in> C" "(c, ?cur) \<in> ?D\<^sup>*" by blast
      ultimately show "y \<in> ?R" by (meson Image_iff rtrancl.rtrancl_into_rtrancl)
    qed
    have ups_ne: "[] \<notin> ?D `` {?cur}"
      using ne by blast
    have 1: "set stack' \<subseteq> ?R"
      unfolding v(3) using i1 bl ups_reach by blast
    have 2: "set seen' \<subseteq> ?R"
      unfolding v(1) using i2 cur_reach by blast
    have 3: "set result' \<subseteq> set (pages g) \<inter> ?R"
      unfolding v(2) using i3 cur_reach ups_reach by blast
    have 4: "C \<subseteq> set seen' \<union> set stack'"
      unfolding v(3) unfolding v(1) using i4 cover by blast
    have 5: "?D `` set seen' \<subseteq> set seen' \<union> set stack'"
    proof
      fix y assume "y \<in> ?D `` set seen'"
      then obtain x where x: "x \<in> set seen'" "(x, y) \<in> ?D" by blast
      show "y \<in> set seen' \<union> set stack'"
      proof (cases "x = ?cur")
        case True
        with x(2) have "y \<in> ?D `` {?cur}" by blast
        then show ?thesis unfolding v(3) by blast
      next
        case False
        with x(1) have "x \<in> set seen" unfolding v(1) by blast
        with x(2) i5 have "y \<in> set seen \<union> set stack" by blast
        with cover show ?thesis unfolding v(3) unfolding v(1) by blast
      qed
    qed
    have 6: "set seen' \<inter> set (pages g) \<subseteq> set result'"
      unfolding v(2) unfolding v(1) using i6 by blast
    have 7: "[] \<notin> set stack'"
      unfolding v(3) using i7 bl ups_ne by blast
    from 1 2 3 4 5 6 7 show ?thesis
      by (simp add: impactInv_def)
  qed
qed

lemma impactInv_final:
  assumes "impactInv g C ([], seen, result)"
  shows "set result = set (pages g) \<inter> (dependentEdges g)\<^sup>* `` C"
proof -
  let ?D = "dependentEdges g"
  from assms have i: "set result \<subseteq> set (pages g) \<inter> ?D\<^sup>* `` C" "C \<subseteq> set seen"
    "?D `` set seen \<subseteq> set seen" "set seen \<inter> set (pages g) \<subseteq> set result"
    by (simp_all add: impactInv_def)
  have "y \<in> set seen" if "(x, y) \<in> ?D\<^sup>*" and "x \<in> C" for x y
    using that
  proof (induction rule: rtrancl_induct)
    case base
    with i(2) show ?case by blast
  next
    case (step y z)
    with i(3) show ?case by blast
  qed
  then have "?D\<^sup>* `` C \<subseteq> set seen" by blast
  with i show ?thesis by blast
qed

lemma getImpactedPages_reverse_reachable:
  assumes fin: "finite (dom (dependents g))"
    and ne: "[] \<notin> Range (dependentEdges g)"
    and start: "[] \<notin> pathResolve e (CWD e) ` set changedPaths"
  shows "\<exists>r. getImpactedPages e changedPaths g = Some r
           \<and> set r = set (pages g) \<inter> (dependentEdges g)\<^sup>* `` (pathResolve e (CWD e) ` set changedPaths)"
proof -
  let ?stack = "map (pathResolve e (CWD e)) changedPaths"
  let ?C = "pathResolve e (CWD e) ` set changedPaths"
  let ?N = "set ?stack \<union> Range (dependentEdges g)"
  have finN: "finite ?N"
    using finite_Range_dependentEdges [OF fin] by simp
  have init: "impactInv g ?C (?stack, [], [])"
    using start by (auto simp: impactInv_def)
  have edges: "Range (dependentEdges g) \<subseteq> ?N" by simp
  have sub: "set ?stack \<subseteq> ?N" by simp
  have pres: "impactInv g ?C (stack', seen', result')"
    if "impactInv g ?C (stack, seen, result)" "stack \<noteq> []"
      "impactStep g (stack, seen, result) = (stack', seen', result')"
    for stack seen result stack' seen' result'
    using impactInv_step [OF ne that] .
  have "\<exists>seen' r. impactLoop g ?stack [] [] = Some r \<and> impactInv g ?C ([], seen', r)"
    using impactLoop_total [where I = "impactInv g ?C" and N = ?N and g = g
        and stack = ?stack and seen = "[]" and result = "[]", OF finN edges pres init sub] .
  then obtain seen' r where "impactLoop g ?stack [] [] = Some r" "impactInv g ?C ([], seen', r)"
    by blast
  with impactInv_final [OF this(2)] show ?thesis
    by (simp add: getImpactedPages_def)
qed
theorem getImpactedPages_terminates_witness:
  "finite (dom (dependents cycleGraph))
   \<and> (''/w/src/partials/x.ejs'', ''/w/src/partials/y.ejs'') \<in> dependentEdges cycleGraph
   \<and> (''/w/src/partials/y.ejs'', ''/w/src/partials/x.ejs'') \<in> dependentEdges cycleGraph
   \<and> (\<exists>r. getImpactedPages demoEnv [''/w/src/partials/y.ejs''] cycleGraph = Some r)"
proof -
  have fin: "finite (dom (dependents cycleGraph))"
    by (simp add: cycleGraph_def)
  have cyc: "(''/w/src/partials/x.ejs'', ''/w/src/partials/y.ejs'') \<in> dependentEdges cycleGraph"
    "(''/w/src/partials/y.ejs'', ''/w/src/partials/x.ejs'') \<in> dependentEdges cycleGraph"
    by (simp_all add: dependentEdges_def cycleGraph_def)
  from getImpactedPages_terminates [OF fin, of demoEnv "[''/w/src/partials/y.ejs'']"] fin cyc
  show ?thesis by blast
qed

lemma demo_cycle_value:
  "getImpactedPages demoEnv [''/w/src/partials/y.ejs''] cycleGraph = Some [''/w/src/pages/a.ejs'']"
  by (simp add: getImpactedPages_def impactLoop.simps cycleGraph_def demoEnv_def visitUp_def Set_add_def Let_def)

text \<open>
  Claim C2. \<open>getImpactedPages\<close> returns exactly the documents reachable from a (resolved)
  changed path along reverse edges, a changed document included; when the two maps are
  transposes these are the documents that reach a changed path along include edges. Paths
  are absolute, hence non-empty: the loop skips an empty path. The witness is the two-level
  scenario: \<open>nav\<close> includes \<open>logo\<close>, \<open>a\<close> includes \<open>nav\<close>, and changing \<open>logo\<close> alone
  yields exactly \<open>a\<close>.
\<close>

theorem getImpactedPages_exact:
  assumes fin: "finite (dom (dependents g))"
    and nodes: "[] \<notin> Range (dependentEdges g)"
    and start: "[] \<notin> pathResolve e (CWD e) ` set changedPaths"
  shows "\<exists>r. getImpactedPages e changedPaths g = Some r
     \<and> set r = {p \<in> set (pages g). \<exists>c \<in> set changedPaths.
                   (pathResolve e (CWD e) c, p) \<in> (dependentEdges g)\<^sup>*}
     \<and> (dependentEdges g = (includeEdges g)\<inverse> \<longrightarrow>
          set r = {p \<in> set (pages g). \<exists>c \<in> set changedPaths.
                   (p, pathResolve e (CWD e) c) \<in> (includeEdges g)\<^sup>*})"
proof -
  from getImpactedPages_reverse_reachable [OF fin nodes start]
  obtain r where r: "getImpactedPages e changedPaths g = Some r"
    and s: "set r = set (pages g) \<inter> (dependentEdges g)\<^sup>* `` (pathResolve e (CWD e) ` set changedPaths)"
    by blast
  have 1: "set r = {p \<in> set (pages g). \<exists>c \<in> set changedPaths.
                   (pathResolve e (CWD e) c, p) \<in> (dependentEdges g)\<^sup>*}"
    unfolding s by blast
  have 2: "set r = {p \<in> set (pages g). \<exists>c \<in> set changedPaths.
                   (p, pathResolve e (CWD e) c) \<in> (includeEdges g)\<^sup>*}"
    if tr: "dependentEdges g = (includeEdges g)\<inverse>"
    unfolding 1 tr rtrancl_converse by blast
  from r 1 2 show ?thesis by blast
qed

lemma buildDependencyGraph_edges:
  assumes "buildDependencyGraph e = Inr g"
  shows "dependentEdges g = (includeEdges g)\<inverse>"
  using buildDependencyGraph_inv [OF assms]
  by (auto simp: graphInv_def dependentEdges_def includeEdges_def)

lemma demo_edges:
  "includeEdges demoGraph = {(''/w/src/pages/a.ejs'', ''/w/src/partials/nav.ejs''),
                             (''/w/src/partials/nav.ejs'', ''/w/src/partials/logo.ejs'')}"
  "dependentEdges demoGraph = {(''/w/src/partials/nav.ejs'', ''/w/src/pages/a.ejs''),
                               (''/w/src/partials/logo.ejs'', ''/w/src/partials/nav.ejs'')}"
  by (auto simp: includeEdges_def dependentEdges_def demoGraph_def split: if_splits)

theorem getImpactedPages_exact_witness:
  "finite (dom (dependents demoGraph))
   \<and> [] \<notin> Range (dependentEdges demoGraph)
   \<and> [] \<notin> pathResolve demoEnv (CWD demoEnv) ` set [''/w/src/partials/logo.ejs'']
   \<and> dependentEdges demoGraph = (includeEdges demoGraph)\<inverse>
   \<and> getImpactedPages demoEnv [''/w/src/partials/logo.ejs''] demoGraph = Some [''/w/src/pages/a.ejs'']
   \<and> set [''/w/src/pages/a.ejs''] = {p \<in> set (pages demoGraph). \<exists>c \<in> set [''/w/src/partials/logo.ejs''].
         (p, pathResolve demoEnv (CWD demoEnv) c) \<in> (includeEdges demoGraph)\<^sup>*}"
proof -
  have fin: "finite (dom (dependents demoGraph))"
    by (simp add: demoGraph_def)
  have nodes: "[] \<notin> Range (dependentEdges demoGraph)"
    by (simp add: demo_edges)
  have start: "[] \<notin> pathResolve demoEnv (CWD demoEnv) ` set [''/w/src/partials/logo.ejs'']"
    by (simp add: demoEnv_def)
  have tr: "dependentEdges demoGraph = (includeEdges demoGraph)\<inverse>"
    by (rule buildDependencyGraph_edges [OF demo_build])
  have val: "getImpactedPages demoEnv [''/w/src/partials/logo.ejs''] demoGraph = Some [''/w/src/pages/a.ejs'']"
    by (simp add: getImpactedPages_def impactLoop.simps demoGraph_def demoEnv_def visitUp_def
        Set_add_def Let_def)
  from getImpactedPages_exact [OF fin nodes start]
  obtain r where r: "getImpactedPages demoEnv [''/w/src/partials/logo.ejs''] demoGraph = Some r"
    and imp: "dependentEdges demoGraph = (includeEdges demoGraph)\<inverse> \<longrightarrow>
      set r = {p \<in> set (pages demoGraph). \<exists>c \<in> set [''/w/src/partials/logo.ejs''].
         (p, pathResolve demoEnv (CWD demoEnv) c) \<in> (includeEdges demoGraph)\<^sup>*}"
    by blast
  from r val have "r = [''/w/src/pages/a.ejs'']" by simp
  with imp tr have "set [''/w/src/pages/a.ejs''] = {p \<in> set (pages demoGraph). \<exists>c \<in> set [''/w/src/partials/logo.ejs''].
         (p, pathResolve demoEnv (CWD demoEnv) c) \<in> (includeEdges demoGraph)\<^sup>*}"
    by blast
  with fin nodes start tr val show ?thesis by blast
qed

section \<open>Properties of the change scheduler\<close>

lemma compilePageWithPartials_clean:
  assumes "existsSync e page" and "readFileSync e page = Inr content"
    and "render e (stripEjsComments content) parts page = Inr html"
    and "mkdirSync e (dirname e (outPath e page))" and "writeFileSync e (outPath e page) html"
  shows "compilePageWithPartials e page parts out = (out @ [(outPath e page, html)], None)"
  using assms by (simp add: compilePageWithPartials_def readEjsFile_def)

lemma compileLoop_clean:
  "\<forall>p \<in> set ps. existsSync e p \<and> readFileSync e p = Inr (content p)
      \<and> render e (stripEjsComments (content p)) parts p = Inr (html p)
      \<and> mkdirSync e (dirname e (outPath e p)) \<and> writeFileSync e (outPath e p) (html p) \<Longrightarrow>
   compileLoop e parts ps out = (out @ map (\<lambda>p. (outPath e p, html p)) ps, None)"
proof (induction ps arbitrary: out)
  case Nil
  show ?case by simp
next
  case (Cons p ps)
  from Cons.prems
  have c: "compilePageWithPartials e p parts out = (out @ [(outPath e p, html p)], None)"
    by (intro compilePageWithPartials_clean [where content = "content p"]) simp_all
  from Cons.prems have "\<forall>p \<in> set ps. existsSync e p \<and> readFileSync e p = Inr (content p)
      \<and> render e (stripEjsComments (content p)) parts p = Inr (html p)
      \<and> mkdirSync e (dirname e (outPath e p)) \<and> writeFileSync e (outPath e p) (html p)"
    by simp
  from Cons.IH [OF this, of "out @ [(outPath e p, html p)]"] c show ?case
    by simp
qed

lemma compileAll_clean:
  assumes "mkdirSync e (OUT_DIR e)" and "readPartials e = Inr parts"
    and "walkDir e (PAGES_DIR e) = Inr pageFiles"
    and "\<forall>p \<in> set pageFiles. existsSync e p \<and> readFileSync e p = Inr (content p)
      \<and> render e (stripEjsComments (content p)) parts p = Inr (html p)
      \<and> mkdirSync e (dirname e (outPath e p)) \<and> writeFileSync e (outPath e p) (html p)"
  shows "compileAll e out = (out @ map (\<lambda>p. (outPath e p, html p)) pageFiles, None)"
  using compileLoop_clean [OF assms(4), of out] assms(1-3)
  by (simp add: compileAll_def)

lemma compileEach_clean:
  assumes "mkdirSync e (OUT_DIR e)" and "readPartials e = Inr parts"
  shows "\<forall>p \<in> set ps. existsSync e p \<and> readFileSync e p = Inr (content p)
      \<and> render e (stripEjsComments (content p)) parts p = Inr (html p)
      \<and> mkdirSync e (dirname e (outPath e p)) \<and> writeFileSync e (outPath e p) (html p) \<Longrightarrow>
   compileEach e ps out = (out @ map (\<lambda>p. (outPath e p, html p)) ps, None)"
proof (induction ps arbitrary: out)
  case Nil
  show ?case by simp
next
  case (Cons p ps)
  from Cons.prems
  have "compilePageWithPartials e p parts out = (out @ [(outPath e p, html p)], None)"
    by (intro compilePageWithPartials_clean [where content = "content p"]) simp_all
  with assms have c: "compilePage e p out = (out @ [(outPath e p, html p)], None)"
    by (simp add: compilePage_def)
  from Cons.prems have "\<forall>p \<in> set ps. existsSync e p \<and> readFileSync e p = Inr (content p)
      \<and> render e (stripEjsComments (content p)) parts p = Inr (html p)
      \<and> mkdirSync e (dirname e (outPath e p)) \<and> writeFileSync e (outPath e p) (html p)"
    by simp
  from Cons.IH [OF this, of "out @ [(outPath e p, html p)]"] c show ?case
    by simp
qed

lemma set_Set_of: "set (Set_of xs) = set xs"
proof -
  have "set (fold Set_add xs acc) = set acc \<union> set xs" for acc :: "'a list"
    by (induction xs arbitrary: acc) (auto simp: set_Set_add)
  then show ?thesis by (simp add: Set_of_def)
qed

lemma buildDependencyGraph_pages:
  assumes "buildDependencyGraph e = Inr g" and "walkDir e (PAGES_DIR e) = Inr pageFiles"
  shows "set (pages g) = set pageFiles"
  using assms
  by (auto simp: buildDependencyGraph_def Let_def set_Set_of split: sum.splits prod.splits)

lemma buildDependencyGraph_finite:
  assumes "buildDependencyGraph e = Inr g"
  shows "finite (dom (dependents g))"
  using buildDependencyGraph_inv [OF assms] by (simp add: graphInv_def)

lemma getImpactedPages_pages:
  assumes fin: "finite (dom (dependents g))" and r: "getImpactedPages e changedPaths g = Some r"
  shows "set r \<subseteq> set (pages g)"
proof -
  let ?stack = "map (pathResolve e (CWD e)) changedPaths"
  let ?N = "set ?stack \<union> Range (dependentEdges g)"
  let ?I = "\<lambda>st :: path list \<times> path list \<times> path list. set (snd (snd st)) \<subseteq> set (pages g)"
  have finN: "finite ?N"
    using finite_Range_dependentEdges [OF fin] by simp
  have edges: "Range (dependentEdges g) \<subseteq> ?N" by simp
  have sub: "set ?stack \<subseteq> ?N" by simp
  have init: "?I (?stack, [], [])" by simp
  have pres: "?I (stack', seen', result')"
    if inv: "?I (stack, seen, result)" and ne: "stack \<noteq> []"
      and st: "impactStep g (stack, seen, result) = (stack', seen', result')"
    for stack seen result stack' seen' result'
  proof (cases "last stack = [] \<or> last stack \<in> set seen")
    case True
    from impactStep_skip [OF True, of g result] st inv show ?thesis by simp
  next
    case False
    then have "last stack \<noteq> []" "last stack \<notin> set seen" by simp_all
    from impactStep_visit(2) [OF this st] inv show ?thesis by auto
  qed
  have "\<exists>seen' r'. impactLoop g ?stack [] [] = Some r' \<and> ?I ([], seen', r')"
    by (rule impactLoop_total [where I = ?I and N = ?N, OF finN edges pres init sub])
  then obtain r' where "impactLoop g ?stack [] [] = Some r'" "set r' \<subseteq> set (pages g)"
    by auto
  with r show ?thesis by (simp add: getImpactedPages_def)
qed

lemma demo_readEjsFile:
  "readEjsFile demoEnv ''/w/src/partials/nav.ejs'' = Inr (''<%- include('' @ [CHR 0x27] @ ''logo'' @ [CHR 0x27] @ '') %>'')"
  "readEjsFile demoEnv ''/w/src/partials/logo.ejs'' = Inr ''<svg></svg>''"
  by code_simp+

lemma demo_partialKey:
  "partialKey demoEnv ''/w/src/partials/nav.ejs'' = ''nav''"
  "partialKey demoEnv ''/w/src/partials/logo.ejs'' = ''logo''"
  by code_simp+

lemma demo_readPartials: "readPartials demoEnv = Inr demoPartials"
proof -
  have "existsSync demoEnv (PARTIALS_DIR demoEnv)" by (simp add: demoEnv_def)
  then show ?thesis
    by (simp add: readPartials_def demo_walk demo_readEjsFile demo_partialKey demoPartials_def)
qed

lemma demo_outPath:
  "outPath demoEnv ''/w/src/pages/a.ejs'' = ''/w/dev-html/a.html''"
  "outPath demoEnv ''/w/src/pages/b.ejs'' = ''/w/dev-html/b.html''"
  by code_simp+

lemma demo_impacted:
  "getImpactedPages demoEnv [''/w/src/partials/nav.ejs''] demoGraph = Some [''/w/src/pages/a.ejs'']"
  "getImpactedPages demoEnv [''/w/README.ejs''] demoGraph = Some []"
  by (simp_all add: getImpactedPages_def impactLoop.simps demoGraph_def demoEnv_def visitUp_def
      Set_add_def Let_def)

text \<open>
  In \<open>failEnv\<close> everything but \<open>render\<close> is as in \<open>demoEnv\<close>, so the graph, the fragment
  map and the impacted sets are the same.
\<close>

lemma fail_scan:
  "scanIncludes failEnv ''/w/src/pages/a.ejs'' = Inr [''/w/src/partials/nav.ejs'']"
  "scanIncludes failEnv ''/w/src/pages/b.ejs'' = Inr []"
  "scanIncludes failEnv ''/w/src/partials/nav.ejs'' = Inr [''/w/src/partials/logo.ejs'']"
  "scanIncludes failEnv ''/w/src/partials/logo.ejs'' = Inr []"
  by code_simp+

lemma fail_walk:
  "walkDir failEnv (PAGES_DIR failEnv) = Inr [''/w/src/pages/a.ejs'', ''/w/src/pages/b.ejs'']"
  "walkDir failEnv (PARTIALS_DIR failEnv) = Inr [''/w/src/partials/nav.ejs'', ''/w/src/partials/logo.ejs'']"
  by code_simp+

lemma fail_build: "buildDependencyGraph failEnv = Inr demoGraph"
  by (simp add: buildDependencyGraph_def fail_walk fail_scan Set_of_def Set_add_def
      addDependent_def demoGraph_def)

lemma fail_impacted: "getImpactedPages failEnv [''/w/README.ejs''] demoGraph = Some []"
  by (simp add: getImpactedPages_def impactLoop.simps demoGraph_def demoEnv_def failEnv_def
      visitUp_def Set_add_def Let_def)

lemma fail_readEjsFile:
  "readEjsFile failEnv ''/w/src/partials/nav.ejs'' = Inr (''<%- include('' @ [CHR 0x27] @ ''logo'' @ [CHR 0x27] @ '') %>'')"
  "readEjsFile failEnv ''/w/src/partials/logo.ejs'' = Inr ''<svg></svg>''"
  by code_simp+

lemma fail_partialKey:
  "partialKey failEnv ''/w/src/partials/nav.ejs'' = ''nav''"
  "partialKey failEnv ''/w/src/partials/logo.ejs'' = ''logo''"
  by code_simp+

lemma fail_readPartials: "readPartials failEnv = Inr demoPartials"
proof -
  have "existsSync failEnv (PARTIALS_DIR failEnv)" by (simp add: demoEnv_def failEnv_def)
  then show ?thesis
    by (simp add: readPartials_def fail_walk fail_readEjsFile fail_partialKey demoPartials_def)
qed

lemma fail_compile_a:
  "compilePageWithPartials failEnv ''/w/src/pages/a.ejs'' demoPartials [] = ([], Some RenderError)"
  by code_simp

lemma fail_compile_b:
  "compilePageWithPartials failEnv ''/w/src/pages/b.ejs'' demoPartials []
     = ([(''/w/dev-html/b.html'', ''<p>b</p>'')], None)"
  by code_simp

lemma fail_compileAll: "compileAll failEnv [] = ([], Some RenderError)"
proof -
  have "mkdirSync failEnv (OUT_DIR failEnv)" by (simp add: demoEnv_def failEnv_def)
  then show ?thesis
    by (simp add: compileAll_def fail_readPartials fail_walk fail_compile_a)
qed

text \<open>
  Claim C3, as stated, fails when a compilation raises: nothing in \<open>flush\<close>,
  \<open>compileAll\<close> or \<open>compilePage\<close> catches an exception, so the first document that raises
  ends the flush. In \<open>failEnv\<close> a change of \<open>/w/README.ejs\<close> gives an empty impacted set;
  \<open>compileAll\<close> raises on \<open>a.ejs\<close>, the flush ends with that error, and \<open>b.ejs\<close>, which
  compiles on its own, is never recompiled: no file is written and no reload is sent.
\<close>

theorem flush_recompiles_counterexample:
  "buildDependencyGraph failEnv = Inr demoGraph
   \<and> pages demoGraph = [''/w/src/pages/a.ejs'', ''/w/src/pages/b.ejs'']
   \<and> getImpactedPages failEnv (pending (demoIdle\<lparr>pending := [''/w/README.ejs'']\<rparr>)) demoGraph = Some []
   \<and> compilePage failEnv ''/w/src/pages/b.ejs'' [] = ([(''/w/dev-html/b.html'', ''<p>b</p>'')], None)
   \<and> map_option snd (flush failEnv (demoIdle\<lparr>pending := [''/w/README.ejs'']\<rparr>)) = Some (Some RenderError)
   \<and> map_option (written \<circ> fst) (flush failEnv (demoIdle\<lparr>pending := [''/w/README.ejs'']\<rparr>)) = Some []
   \<and> map_option (reloads \<circ> fst) (flush failEnv (demoIdle\<lparr>pending := [''/w/README.ejs'']\<rparr>)) = Some 0"
proof -
  have outDir: "mkdirSync failEnv (OUT_DIR failEnv)" by (simp add: demoEnv_def failEnv_def)
  have pg: "pages demoGraph = [''/w/src/pages/a.ejs'', ''/w/src/pages/b.ejs'']"
    by (simp add: demoGraph_def)
  have imp: "getImpactedPages failEnv (pending (demoIdle\<lparr>pending := [''/w/README.ejs'']\<rparr>)) demoGraph = Some []"
    by (simp add: fail_impacted)
  have b: "compilePage failEnv ''/w/src/pages/b.ejs'' [] = ([(''/w/dev-html/b.html'', ''<p>b</p>'')], None)"
    using outDir by (simp add: compilePage_def fail_readPartials fail_compile_b)
  have w: "written demoIdle = []" "reloads demoIdle = 0"
    by (simp_all add: demoIdle_def)
  have f: "map_option snd (flush failEnv (demoIdle\<lparr>pending := [''/w/README.ejs'']\<rparr>)) = Some (Some RenderError)"
    "map_option (written \<circ> fst) (flush failEnv (demoIdle\<lparr>pending := [''/w/README.ejs'']\<rparr>)) = Some []"
    "map_option (reloads \<circ> fst) (flush failEnv (demoIdle\<lparr>pending := [''/w/README.ejs'']\<rparr>)) = Some 0"
    using imp by (simp_all add: flush_def Let_def fail_build w fail_compileAll)
  from fail_build pg imp b f show ?thesis by blast
qed

text \<open>
  Claim C3, amended. In a flush in which no compilation raises (the output directory can be
  created, the fragments can be read, and each document to compile exists, can be read,
  renders and can be written): when the impacted set computed for the pending paths is empty,
  \<open>compileAll\<close> recompiles every document on disk; when it is not empty, exactly the
  impacted documents are recompiled, one \<open>compilePage\<close> each. Recompiled means: the file at
  the document's output path is written with the rendering of its comment-stripped source
  under the fragment map. The documents to compile are documents on disk, the flush then sends
  one reload, and nothing else is written.
\<close>

theorem flush_recompiles:
  assumes build: "buildDependencyGraph e = Inr g"
    and walk: "walkDir e (PAGES_DIR e) = Inr pageFiles"
    and imp: "getImpactedPages e (pending st) g = Some impacted"
    and targets: "targets = (if impacted = [] then pageFiles else impacted)"
    and outDir: "mkdirSync e (OUT_DIR e)"
    and parts: "readPartials e = Inr partialsMap"
    and clean: "\<forall>p \<in> set targets.
        existsSync e p \<and> readFileSync e p = Inr (content p)
        \<and> render e (stripEjsComments (content p)) partialsMap p = Inr (html p)
        \<and> mkdirSync e (dirname e (outPath e p)) \<and> writeFileSync e (outPath e p) (html p)"
  shows "flush e st
       = Some (st\<lparr>graph := Some g, pending := [],
                  timer := None,
                  timeouts := filter (\<lambda>(h, due). Some h \<noteq> timer st) (timeouts st),
                  written := written st @ map (\<lambda>p. (outPath e p, html p)) targets,
                  reloads := reloads st + 1,
                  flushes := flushes st + 1\<rparr>, None)
     \<and> (if impacted = [] then compileAll e (written st) else compileEach e impacted (written st))
         = (written st @ map (\<lambda>p. (outPath e p, html p)) targets, None)
     \<and> set targets \<subseteq> set pageFiles"
proof -
  let ?out = "written st @ map (\<lambda>p. (outPath e p, html p)) targets"
  have run: "(if impacted = [] then compileAll e (written st) else compileEach e impacted (written st))
         = (?out, None)"
  proof (cases "impacted = []")
    case True
    with targets clean have c: "\<forall>p \<in> set pageFiles.
        existsSync e p \<and> readFileSync e p = Inr (content p)
        \<and> render e (stripEjsComments (content p)) partialsMap p = Inr (html p)
        \<and> mkdirSync e (dirname e (outPath e p)) \<and> writeFileSync e (outPath e p) (html p)"
      by simp
    from compileAll_clean [OF outDir parts walk c, of "written st"] True targets
    show ?thesis by simp
  next
    case False
    with targets clean have c: "\<forall>p \<in> set impacted.
        existsSync e p \<and> readFileSync e p = Inr (content p)
        \<and> render e (stripEjsComments (content p)) partialsMap p = Inr (html p)
        \<and> mkdirSync e (dirname e (outPath e p)) \<and> writeFileSync e (outPath e p) (html p)"
      by simp
    from compileEach_clean [OF outDir parts c, of "written st"] False targets
    show ?thesis by simp
  qed
  have fl: "flush e st
       = Some (st\<lparr>graph := Some g, pending := [],
                  timer := None,
                  timeouts := filter (\<lambda>(h, due). Some h \<noteq> timer st) (timeouts st),
                  written := ?out,
                  reloads := reloads st + 1,
                  flushes := flushes st + 1\<rparr>, None)"
  proof (cases "impacted = []")
    case True
    with run have "compileAll e (written st) = (?out, None)" by simp
    with build imp True show ?thesis by (simp add: flush_def Let_def)
  next
    case False
    with run have "compileEach e impacted (written st) = (?out, None)" by simp
    with build imp False show ?thesis by (simp add: flush_def Let_def)
  qed
  from getImpactedPages_pages [OF buildDependencyGraph_finite [OF build] imp]
    buildDependencyGraph_pages [OF build walk] targets
  have sub: "set targets \<subseteq> set pageFiles"
    by (simp split: if_splits)
  from fl run sub show ?thesis by blast
qed

lemma demo_page_a:
  "existsSync demoEnv ''/w/src/pages/a.ejs''"
  "readFileSync demoEnv ''/w/src/pages/a.ejs'' = Inr (demoContent ''/w/src/pages/a.ejs'')"
  "render demoEnv (stripEjsComments (demoContent ''/w/src/pages/a.ejs'')) demoPartials ''/w/src/pages/a.ejs''
     = Inr (stripEjsComments (demoContent ''/w/src/pages/a.ejs''))"
  "mkdirSync demoEnv (dirname demoEnv (outPath demoEnv ''/w/src/pages/a.ejs''))"
  "writeFileSync demoEnv (outPath demoEnv ''/w/src/pages/a.ejs'')
     (stripEjsComments (demoContent ''/w/src/pages/a.ejs''))"
  by (simp_all add: demoEnv_def demoContent_def demoFiles_def)

lemma demo_page_b:
  "existsSync demoEnv ''/w/src/pages/b.ejs''"
  "readFileSync demoEnv ''/w/src/pages/b.ejs'' = Inr (demoContent ''/w/src/pages/b.ejs'')"
  "render demoEnv (stripEjsComments (demoContent ''/w/src/pages/b.ejs'')) demoPartials ''/w/src/pages/b.ejs''
     = Inr (stripEjsComments (demoContent ''/w/src/pages/b.ejs''))"
  "mkdirSync demoEnv (dirname demoEnv (outPath demoEnv ''/w/src/pages/b.ejs''))"
  "writeFileSync demoEnv (outPath demoEnv ''/w/src/pages/b.ejs'')
     (stripEjsComments (demoContent ''/w/src/pages/b.ejs''))"
  by (simp_all add: demoEnv_def demoContent_def demoFiles_def)

lemma demo_html:
  "stripEjsComments (demoContent ''/w/src/pages/a.ejs'')
     = ''<%- include('' @ [CHR 0x27] @ ''../partials/nav'' @ [CHR 0x27] @ '') %>''"
  "stripEjsComments (demoContent ''/w/src/pages/b.ejs'') = ''<p>b</p>''"
  by code_simp+

theorem flush_recompiles_witness:
  "buildDependencyGraph demoEnv = Inr demoGraph
   \<and> walkDir demoEnv (PAGES_DIR demoEnv) = Inr [''/w/src/pages/a.ejs'', ''/w/src/pages/b.ejs'']
   \<and> mkdirSync demoEnv (OUT_DIR demoEnv)
   \<and> readPartials demoEnv = Inr demoPartials
   \<and> existsSync demoEnv ''/w/src/pages/a.ejs''
   \<and> readFileSync demoEnv ''/w/src/pages/a.ejs'' = Inr (demoContent ''/w/src/pages/a.ejs'')
   \<and> render demoEnv (stripEjsComments (demoContent ''/w/src/pages/a.ejs'')) demoPartials ''/w/src/pages/a.ejs''
        = Inr (stripEjsComments (demoContent ''/w/src/pages/a.ejs''))
   \<and> existsSync demoEnv ''/w/src/pages/b.ejs''
   \<and> readFileSync demoEnv ''/w/src/pages/b.ejs'' = Inr (demoContent ''/w/src/pages/b.ejs'')
   \<and> render demoEnv (stripEjsComments (demoContent ''/w/src/pages/b.ejs'')) demoPartials ''/w/src/pages/b.ejs''
        = Inr (stripEjsComments (demoContent ''/w/src/pages/b.ejs''))
   \<and> getImpactedPages demoEnv (pending (demoIdle\<lparr>pending := [''/w/src/partials/nav.ejs'']\<rparr>)) demoGraph
        = Some [''/w/src/pages/a.ejs'']
   \<and> map_option (written \<circ> fst) (flush demoEnv (demoIdle\<lparr>pending := [''/w/src/partials/nav.ejs'']\<rparr>))
        = Some [(''/w/dev-html/a.html'',
                 ''<%- include('' @ [CHR 0x27] @ ''../partials/nav'' @ [CHR 0x27] @ '') %>'')]
   \<and> getImpactedPages demoEnv (pending (demoIdle\<lparr>pending := [''/w/README.ejs'']\<rparr>)) demoGraph = Some []
   \<and> map_option (written \<circ> fst) (flush demoEnv (demoIdle\<lparr>pending := [''/w/README.ejs'']\<rparr>))
        = Some [(''/w/dev-html/a.html'',
                 ''<%- include('' @ [CHR 0x27] @ ''../partials/nav'' @ [CHR 0x27] @ '') %>''),
                (''/w/dev-html/b.html'', ''<p>b</p>'')]"
proof -
  let ?a = "''/w/src/pages/a.ejs''" and ?b = "''/w/src/pages/b.ejs''"
  let ?html = "\<lambda>p. stripEjsComments (demoContent p)"
  let ?S1 = "demoIdle\<lparr>pending := [''/w/src/partials/nav.ejs'']\<rparr>"
  let ?S2 = "demoIdle\<lparr>pending := [''/w/README.ejs'']\<rparr>"
  have outDir: "mkdirSync demoEnv (OUT_DIR demoEnv)" by (simp add: demoEnv_def)
  have imp1: "getImpactedPages demoEnv (pending ?S1) demoGraph = Some [?a]"
    by (simp add: demo_impacted)
  have imp2: "getImpactedPages demoEnv (pending ?S2) demoGraph = Some []"
    by (simp add: demo_impacted)
  have t1: "[?a] = (if [?a] = [] then [?a, ?b] else [?a])" by simp
  have t2: "[?a, ?b] = (if ([] :: path list) = [] then [?a, ?b] else [])" by simp
  have clean1: "\<forall>p \<in> set [?a].
        existsSync demoEnv p \<and> readFileSync demoEnv p = Inr (demoContent p)
        \<and> render demoEnv (stripEjsComments (demoContent p)) demoPartials p = Inr (?html p)
        \<and> mkdirSync demoEnv (dirname demoEnv (outPath demoEnv p))
        \<and> writeFileSync demoEnv (outPath demoEnv p) (?html p)"
    using demo_page_a by simp
  have clean2: "\<forall>p \<in> set [?a, ?b].
        existsSync demoEnv p \<and> readFileSync demoEnv p = Inr (demoContent p)
        \<and> render demoEnv (stripEjsComments (demoContent p)) demoPartials p = Inr (?html p)
        \<and> mkdirSync demoEnv (dirname demoEnv (outPath demoEnv p))
        \<and> writeFileSync demoEnv (outPath demoEnv p) (?html p)"
    using demo_page_a demo_page_b by simp
  have w: "written demoIdle = []" by (simp add: demoIdle_def)
  from flush_recompiles [where content = demoContent and html = ?html,
      OF demo_build demo_walk(1) imp1 t1 outDir demo_readPartials clean1]
  have 1: "map_option (written \<circ> fst) (flush demoEnv ?S1)
        = Some [(''/w/dev-html/a.html'',
                 ''<%- include('' @ [CHR 0x27] @ ''../partials/nav'' @ [CHR 0x27] @ '') %>'')]"
    by (simp add: w demo_outPath demo_html)
  from flush_recompiles [where content = demoContent and html = ?html,
      OF demo_build demo_walk(1) imp2 t2 outDir demo_readPartials clean2]
  have 2: "map_option (written \<circ> fst) (flush demoEnv ?S2)
        = Some [(''/w/dev-html/a.html'',
                 ''<%- include('' @ [CHR 0x27] @ ''../partials/nav'' @ [CHR 0x27] @ '') %>''),
                (''/w/dev-html/b.html'', ''<p>b</p>'')]"
    by (simp add: w demo_outPath demo_html)
  from demo_build demo_walk(1) outDir demo_readPartials demo_page_a(1-3) demo_page_b(1-3)
    imp1 1 imp2 2
  show ?thesis by blast
qed

lemma schedule_armed:
  "timer st \<noteq> None \<Longrightarrow> schedule now file st = st\<lparr>pending := Set_add file (pending st)\<rparr>"
  by (simp add: schedule_def Let_def)

lemma schedule_idle:
  "timer st = None \<Longrightarrow>
   schedule now file st = st\<lparr>pending := Set_add file (pending st), timer := Some (handles st),
     timeouts := timeouts st @ [(handles st, now + 25)], handles := handles st + 1\<rparr>"
  by (simp add: schedule_def Let_def)

lemma advance_not_due:
  assumes "\<forall>(h, due) \<in> set (timeouts st). now < due"
  shows "advance e now st = Some st"
proof -
  from assms have "filter (\<lambda>(h, due). due \<le> now) (timeouts st) = []"
    by (auto simp: filter_empty_conv)
  then show ?thesis by (simp add: advance_def)
qed

lemma flush_returns:
  "\<exists>st' err. flush e st = Some (st', err) \<and> pending st' = [] \<and> timer st' = None
     \<and> timeouts st' = filter (\<lambda>(h, due). Some h \<noteq> timer st) (timeouts st)
     \<and> flushes st' = flushes st + 1"
proof (cases "buildDependencyGraph e")
  case (Inl err)
  then show ?thesis by (simp add: flush_def Let_def)
next
  case (Inr g)
  from getImpactedPages_returns [OF buildDependencyGraph_finite [OF Inr]]
  obtain impacted where imp: "getImpactedPages e (pending st) g = Some impacted"
    by blast
  show ?thesis
  proof (cases "impacted = []")
    case True
    obtain out' err where "compileAll e (written st) = (out', err)"
      by (cases "compileAll e (written st)") auto
    with Inr imp True show ?thesis
      by (cases err) (simp_all add: flush_def Let_def)
  next
    case False
    obtain out' err where "compileEach e impacted (written st) = (out', err)"
      by (cases "compileEach e impacted (written st)") auto
    with Inr imp False show ?thesis
      by (cases err) (simp_all add: flush_def Let_def)
  qed
qed

lemma deliver_while_armed:
  assumes "timer st = Some h" and "timeouts st = [(h, due)]"
    and "\<forall>(t, file) \<in> set events. t < due \<and> endsWith file ''.ejs''"
  shows "\<exists>st'. deliver e events st = Some st' \<and> timer st' = Some h \<and> timeouts st' = [(h, due)]
     \<and> set (pending st') = set (pending st) \<union> toAbs e ` snd ` set events
     \<and> flushes st' = flushes st \<and> handles st' = handles st"
  using assms
proof (induction events arbitrary: st)
  case Nil
  then show ?case by simp
next
  case (Cons ev events)
  obtain t f where ev: "ev = (t, f)" by (cases ev)
  with Cons.prems(3) have t: "t < due" and ejs: "endsWith f ''.ejs''" by simp_all
  from Cons.prems(2) t have adv: "advance e t st = Some st"
    by (intro advance_not_due) simp
  let ?st1 = "st\<lparr>pending := Set_add (toAbs e f) (pending st)\<rparr>"
  from Cons.prems(1) ejs have w: "watcherEvent e t f st = ?st1"
    by (simp add: watcherEvent_def schedule_armed)
  have 1: "timer ?st1 = Some h" using Cons.prems(1) by simp
  have 2: "timeouts ?st1 = [(h, due)]" using Cons.prems(2) by simp
  from Cons.prems(3) have 3: "\<forall>(t, file) \<in> set events. t < due \<and> endsWith file ''.ejs''"
    by simp
  from Cons.IH [OF 1 2 3] obtain st' where st': "deliver e events ?st1 = Some st'"
    "timer st' = Some h" "timeouts st' = [(h, due)]"
    "set (pending st') = set (pending ?st1) \<union> toAbs e ` snd ` set events"
    "flushes st' = flushes ?st1" "handles st' = handles ?st1"
    by blast
  from st' adv w ev show ?case
    by (auto simp: set_Set_add)
qed

text \<open>
  Claim C9. A notification that finds a timer armed only adds its path to the pending set.
  From the idle state, a first notification at time \<open>t0\<close> followed by any notifications
  before \<open>t0 + 25\<close> leaves exactly one timeout armed, due at \<open>t0 + 25\<close>, with all paths
  pending and no flush yet; when time reaches \<open>t0 + 25\<close> exactly one flush has run and the
  scheduler is idle again.
\<close>

theorem schedule_burst_one_flush:
  assumes idle: "timer st = None" "timeouts st = []" "pending st = []"
    and first: "endsWith file0 ''.ejs''"
    and burst: "\<forall>(t, file) \<in> set events. t < t0 + 25 \<and> endsWith file ''.ejs''"
    and later: "t0 + 25 \<le> T"
  shows "(\<forall>now file s. timer s \<noteq> None \<longrightarrow>
            schedule now file s = s\<lparr>pending := Set_add file (pending s)\<rparr>)
     \<and> (\<exists>st1 st2. deliver e ((t0, file0) # events) st = Some st1
          \<and> timer st1 = Some (handles st) \<and> timeouts st1 = [(handles st, t0 + 25)]
          \<and> set (pending st1) = toAbs e ` insert file0 (snd ` set events)
          \<and> flushes st1 = flushes st
          \<and> advance e T st1 = Some st2
          \<and> flushes st2 = flushes st + 1
          \<and> timer st2 = None \<and> timeouts st2 = [] \<and> pending st2 = [])"
proof
  show "\<forall>now file s. timer s \<noteq> None \<longrightarrow>
            schedule now file s = s\<lparr>pending := Set_add file (pending s)\<rparr>"
    by (simp add: schedule_armed)
next
  let ?h = "handles st"
  let ?st0 = "st\<lparr>pending := Set_add (toAbs e file0) (pending st), timer := Some ?h,
     timeouts := timeouts st @ [(?h, t0 + 25)], handles := ?h + 1\<rparr>"
  from idle(2) have adv0: "advance e t0 st = Some st"
    by (intro advance_not_due) simp
  from idle(1) first have w0: "watcherEvent e t0 file0 st = ?st0"
    by (simp add: watcherEvent_def schedule_idle)
  have a1: "timer ?st0 = Some ?h" by simp
  have a2: "timeouts ?st0 = [(?h, t0 + 25)]" using idle(2) by simp
  from deliver_while_armed [OF a1 a2 burst, of e]
  obtain st1 where st1: "deliver e events ?st0 = Some st1" "timer st1 = Some ?h"
    "timeouts st1 = [(?h, t0 + 25)]"
    "set (pending st1) = set (pending ?st0) \<union> toAbs e ` snd ` set events"
    "flushes st1 = flushes ?st0"
    by blast
  have d: "deliver e ((t0, file0) # events) st = Some st1"
    using adv0 w0 st1(1) by simp
  have p: "set (pending st1) = toAbs e ` insert file0 (snd ` set events)"
    using st1(4) idle(3) by (simp add: set_Set_add)
  let ?st1' = "st1\<lparr>timeouts := remove1 (?h, t0 + 25) (timeouts st1)\<rparr>"
  from flush_returns [of e ?st1']
  obtain st2 err where st2: "flush e ?st1' = Some (st2, err)" "pending st2 = []" "timer st2 = None"
    "timeouts st2 = filter (\<lambda>(h, due). Some h \<noteq> timer ?st1') (timeouts ?st1')"
    "flushes st2 = flushes ?st1' + 1"
    by blast
  have "advance e T st1 = runTimeouts e [(?h, t0 + 25)] st1"
    using st1(3) later by (simp add: advance_def)
  also have "\<dots> = Some st2"
    using st1(3) st2(1) by simp
  finally have adv: "advance e T st1 = Some st2" .
  from st2(4) st1(3) have t2: "timeouts st2 = []" by simp
  from st2(5) st1(5) have f2: "flushes st2 = flushes st + 1" by simp
  from st1(5) have f1: "flushes st1 = flushes st" by simp
  from d st1(2,3) p f1 adv f2 st2(2,3) t2
  show "\<exists>st1 st2. deliver e ((t0, file0) # events) st = Some st1
          \<and> timer st1 = Some (handles st) \<and> timeouts st1 = [(handles st, t0 + 25)]
          \<and> set (pending st1) = toAbs e ` insert file0 (snd ` set events)
          \<and> flushes st1 = flushes st
          \<and> advance e T st1 = Some st2
          \<and> flushes st2 = flushes st + 1
          \<and> timer st2 = None \<and> timeouts st2 = [] \<and> pending st2 = []"
    by blast
qed
theorem schedule_burst_one_flush_witness:
  "timer demoIdle = None \<and> timeouts demoIdle = [] \<and> pending demoIdle = []
   \<and> endsWith ''/w/src/partials/nav.ejs'' ''.ejs''
   \<and> (3::nat) < 0 + 25 \<and> (10::nat) < 0 + 25 \<and> endsWith ''src/pages/a.ejs'' ''.ejs''
   \<and> (0::nat) + 25 \<le> 25
   \<and> (\<exists>st1 st2.
         deliver demoEnv [(0, ''/w/src/partials/nav.ejs''), (3, ''/w/src/partials/nav.ejs''),
                          (10, ''src/pages/a.ejs'')] demoIdle = Some st1
         \<and> timer st1 = Some 0 \<and> timeouts st1 = [(0, 25)]
         \<and> set (pending st1) = {''/w/src/partials/nav.ejs'', ''/w/src/pages/a.ejs''}
         \<and> flushes st1 = 0
         \<and> advance demoEnv 25 st1 = Some st2
         \<and> flushes st2 = 1 \<and> timer st2 = None \<and> timeouts st2 = [] \<and> pending st2 = [])"
proof -
  have idle: "timer demoIdle = None" "timeouts demoIdle = []" "pending demoIdle = []"
    by (simp_all add: demoIdle_def)
  have first: "endsWith ''/w/src/partials/nav.ejs'' ''.ejs''"
    by code_simp
  have ejs2: "endsWith ''src/pages/a.ejs'' ''.ejs''"
    by code_simp
  have burst: "\<forall>(t, file) \<in> set [(3::nat, ''/w/src/partials/nav.ejs''), (10, ''src/pages/a.ejs'')].
          t < 0 + 25 \<and> endsWith file ''.ejs''"
    using first ejs2 by simp
  have later: "(0::nat) + 25 \<le> 25" by simp
  have abs: "toAbs demoEnv ''/w/src/partials/nav.ejs'' = ''/w/src/partials/nav.ejs''"
    "toAbs demoEnv ''src/pages/a.ejs'' = ''/w/src/pages/a.ejs''"
    by code_simp+
  have h: "handles demoIdle = 0" "flushes demoIdle = 0" by (simp_all add: demoIdle_def)
  from schedule_burst_one_flush [OF idle first burst later, of demoEnv]
  have "\<exists>st1 st2.
         deliver demoEnv [(0, ''/w/src/partials/nav.ejs''), (3, ''/w/src/partials/nav.ejs''),
                          (10, ''src/pages/a.ejs'')] demoIdle = Some st1
         \<and> timer st1 = Some 0 \<and> timeouts st1 = [(0, 25)]
         \<and> set (pending st1) = {''/w/src/partials/nav.ejs'', ''/w/src/pages/a.ejs''}
         \<and> flushes st1 = 0
         \<and> advance demoEnv 25 st1 = Some st2
         \<and> flushes st2 = 1 \<and> timer st2 = None \<and> timeouts st2 = [] \<and> pending st2 = []"
    by (simp add: abs h)
  with idle first ejs2 later show ?thesis by simp
qed

section \<open>Properties of the icon sprite\<close>




lemma demo_svgFiles: "svgFiles demoLib demoListing = [''a.svg'', ''b.svg'']"
  by code_simp

lemma demo_svgFiles_rev: "svgFiles demoLib (rev demoListing) = [''a.svg'', ''b.svg'']"
  by code_simp


end
